theory Spec2Isabelle
  imports Main "HOL-Library.Stream" "HOL-Library.AList"
begin

section \<open>Python library functions used by store\_with\_lock.py\<close>

text \<open>
  Strings are byte strings. \<open>str.strip()\<close> removes leading and trailing whitespace;
  the ASCII characters for which \<open>str.isspace\<close> holds are 9 to 13, 28 to 31 and 32
  (whitespace outside ASCII is not covered by this model).
\<close>

definition is_space :: "char \<Rightarrow> bool" where
  "is_space c = (let n = (of_char c :: nat) in (9 \<le> n \<and> n \<le> 13) \<or> (28 \<le> n \<and> n \<le> 32))"

definition strip :: "string \<Rightarrow> string" where
  "strip s = rev (dropWhile is_space (rev (dropWhile is_space s)))"

text \<open>\<open>s.replace("Z", "")\<close> deletes every occurrence of the letter Z.\<close>

definition replace_Z :: "string \<Rightarrow> string" where
  "replace_Z s = filter (\<lambda>c. c \<noteq> CHR ''Z'') s"

subsection \<open>\<open>int(s)\<close> and \<open>str(n)\<close>\<close>

text \<open>
  \<open>int(s)\<close> on a string: surrounding whitespace is ignored, one sign is allowed, then
  decimal digits, where single underscores may separate digits. Anything else raises
  ValueError, which is the result \<open>None\<close> here. Python integers are unbounded.
\<close>

definition is_digit :: "char \<Rightarrow> bool" where
  "is_digit c = (48 \<le> (of_char c :: nat) \<and> (of_char c :: nat) \<le> 57)"

definition digit_val :: "char \<Rightarrow> nat" where
  "digit_val c = of_char c - 48"

fun py_digits :: "nat \<Rightarrow> string \<Rightarrow> nat option" where
  "py_digits acc [] = Some acc"
| "py_digits acc [c] = (if is_digit c then Some (10 * acc + digit_val c) else None)"
| "py_digits acc (c # d # cs) =
     (if c = CHR ''_'' then
        (if is_digit d then py_digits (10 * acc + digit_val d) cs else None)
      else if is_digit c then py_digits (10 * acc + digit_val c) (d # cs)
      else None)"

definition py_nat :: "string \<Rightarrow> nat option" where
  "py_nat s = (case s of [] \<Rightarrow> None
     | c # cs \<Rightarrow> if is_digit c then py_digits (digit_val c) cs else None)"

definition py_int :: "string \<Rightarrow> int option" where
  "py_int s = (case strip s of [] \<Rightarrow> None
     | c # cs \<Rightarrow>
         if c = CHR ''-'' then map_option (\<lambda>n. - int n) (py_nat cs)
         else if c = CHR ''+'' then map_option int (py_nat cs)
         else map_option int (py_nat (c # cs)))"

definition digit_char :: "nat \<Rightarrow> char" where
  "digit_char d = ''0123456789'' ! d"

function str_nat :: "nat \<Rightarrow> string" where
  "str_nat n = (if n < 10 then [digit_char n] else str_nat (n div 10) @ [digit_char (n mod 10)])"
  by pat_completeness auto
termination
  by (relation "measure (\<lambda>n. n)") auto

declare str_nat.simps [simp del]

definition str_int :: "int \<Rightarrow> string" where
  "str_int i = (if i < 0 then CHR ''-'' # str_nat (nat (- i)) else str_nat (nat i))"

subsection \<open>\<open>str(uuid.uuid4())\<close>\<close>

text \<open>
  A UUID is a 128-bit integer; its string form is the 32 lower-case hexadecimal digits of
  that integer, grouped 8-4-4-4-12 with hyphens.
\<close>

definition hex_digit :: "nat \<Rightarrow> char" where
  "hex_digit d = ''0123456789abcdef'' ! d"

definition hex32 :: "nat \<Rightarrow> string" where
  "hex32 n = map (\<lambda>i. hex_digit ((n div 16 ^ i) mod 16)) (rev [0..<32])"

definition str_uuid :: "nat \<Rightarrow> string" where
  "str_uuid n = (let h = hex32 (n mod 2 ^ 128) in
     take 8 h @ ''-'' @ take 4 (drop 8 h) @ ''-'' @ take 4 (drop 12 h) @ ''-'' @
     take 4 (drop 16 h) @ ''-'' @ drop 20 h)"

subsection \<open>datetime\<close>

text \<open>
  A naive \<open>datetime\<close> is a point on the time line with microsecond resolution; it is
  represented by the number of microseconds since a fixed origin, so that
  \<open>d + timedelta(seconds=n)\<close> is \<open>d + n * 1000000\<close> and \<open>d1 <= d2\<close> is \<open>\<le>\<close>.
  The calendar text of \<open>isoformat()\<close> and the parser \<open>datetime.fromisoformat\<close> belong to
  the Python library; they are parameters of the model. \<open>fromisoformat\<close> yields \<open>None\<close>
  where the library raises ValueError, and also where it yields a datetime with a time
  zone, whose comparison with the naive \<open>now\<close> raises TypeError: the source catches both
  with the same bare \<open>except\<close>.
\<close>

record datetime_lib =
  isoformat :: "int \<Rightarrow> string"
  fromisoformat :: "string \<Rightarrow> int option"

text \<open>
  The contract of the library that some properties below rely on: the text of
  \<open>isoformat()\<close> has no letter Z and no whitespace, and \<open>fromisoformat\<close> reads it back.
\<close>

definition datetime_ok :: "datetime_lib \<Rightarrow> bool" where
  "datetime_ok dt = (\<forall>t. fromisoformat dt (isoformat dt t) = Some t
     \<and> CHR ''Z'' \<notin> set (isoformat dt t)
     \<and> (\<forall>c \<in> set (isoformat dt t). \<not> is_space c))"

text \<open>
  An instance for concrete runs: the timestamp written as its decimal microsecond count.
\<close>

definition decimal_time :: datetime_lib where
  "decimal_time = \<lparr> isoformat = str_int, fromisoformat = py_int \<rparr>"

section \<open>The spreadsheet and the environment\<close>

text \<open>
  A worksheet is the list of its rows, a row the list of its cell texts, as
  \<open>get_all_values()\<close> and \<open>row_values(i)\<close> return them; rows and columns are counted
  from 1. The world holds the three worksheets of the store, the block list kept in
  \<open>st.session_state["_blocks"]\<close> (the ids only), the clock read by \<open>datetime.utcnow()\<close>
  (advanced by \<open>time.sleep\<close>), the UUIDs that \<open>uuid.uuid4()\<close> will draw, and the transport
  faults to come: each call of the spreadsheet API consumes one entry, and raises
  \<open>APIError\<close> when the entry is \<open>True\<close>; an empty list means that no call fails.
\<close>

type_synonym row = "string list"
type_synonym sheet = "row list"

datatype ws = Resv | Vers | Lock

datatype error = APIError | ValueError

record world =
  ws_resv :: sheet
  ws_vers :: sheet
  ws_lock :: sheet
  blocks :: "string list"
  clock :: int
  uuid_src :: "nat stream"
  faults :: "bool list"

type_synonym 'a io = "world \<Rightarrow> (error + 'a) \<times> world"

definition io_return :: "'a \<Rightarrow> 'a io" where
  "io_return x w = (Inr x, w)"

definition io_bind :: "'a io \<Rightarrow> ('a \<Rightarrow> 'b io) \<Rightarrow> 'b io" where
  "io_bind m f w = (case m w of (Inl e, w') \<Rightarrow> (Inl e, w') | (Inr x, w') \<Rightarrow> f x w')"

fun sheet_of :: "ws \<Rightarrow> world \<Rightarrow> sheet" where
  "sheet_of Resv w = ws_resv w"
| "sheet_of Vers w = ws_vers w"
| "sheet_of Lock w = ws_lock w"

fun put_sheet :: "ws \<Rightarrow> sheet \<Rightarrow> world \<Rightarrow> world" where
  "put_sheet Resv s w = w\<lparr>ws_resv := s\<rparr>"
| "put_sheet Vers s w = w\<lparr>ws_vers := s\<rparr>"
| "put_sheet Lock s w = w\<lparr>ws_lock := s\<rparr>"

definition api_call :: "(world \<Rightarrow> 'a \<times> world) \<Rightarrow> 'a io" where
  "api_call f w = (case faults w of
       [] \<Rightarrow> (case f w of (x, w') \<Rightarrow> (Inr x, w'))
     | b # bs \<Rightarrow> if b then (Inl APIError, w\<lparr>faults := bs\<rparr>)
                else (case f (w\<lparr>faults := bs\<rparr>) of (x, w') \<Rightarrow> (Inr x, w')))"

subsection \<open>The gspread calls\<close>

definition get_all_values :: "ws \<Rightarrow> sheet io" where
  "get_all_values t = api_call (\<lambda>w. (sheet_of t w, w))"

definition nth_row :: "sheet \<Rightarrow> nat \<Rightarrow> row" where
  "nth_row s i = (if 1 \<le> i \<and> i \<le> length s then s ! (i - 1) else [])"

definition row_values :: "ws \<Rightarrow> nat \<Rightarrow> row io" where
  "row_values t i = api_call (\<lambda>w. (nth_row (sheet_of t w) i, w))"

definition append_rows :: "ws \<Rightarrow> row list \<Rightarrow> unit io" where
  "append_rows t rs = api_call (\<lambda>w. ((), put_sheet t (sheet_of t w @ rs) w))"

definition append_row :: "ws \<Rightarrow> row \<Rightarrow> unit io" where
  "append_row t r = append_rows t [r]"

text \<open>
  \<open>update\<close> of the range that starts at row \<open>i\<close>, column \<open>c\<close> and holds one row of values.
  The grid of a sheet is rectangular, so cells and rows short of the range exist and are
  empty.
\<close>

definition set_cells :: "nat \<Rightarrow> string list \<Rightarrow> row \<Rightarrow> row" where
  "set_cells c vs r =
     take (c - 1) (r @ replicate (c - 1 - length r) []) @ vs @ drop (c - 1 + length vs) r"

definition set_range :: "nat \<Rightarrow> nat \<Rightarrow> string list \<Rightarrow> sheet \<Rightarrow> sheet" where
  "set_range i c vs s =
     (let s' = s @ replicate (i - length s) [] in s'[i - 1 := set_cells c vs (s' ! (i - 1))])"

definition update_range :: "ws \<Rightarrow> nat \<Rightarrow> nat \<Rightarrow> string list \<Rightarrow> unit io" where
  "update_range t i c vs = api_call (\<lambda>w. ((), put_sheet t (set_range i c vs (sheet_of t w)) w))"

definition update_cell :: "ws \<Rightarrow> nat \<Rightarrow> nat \<Rightarrow> string \<Rightarrow> unit io" where
  "update_cell t i c v = update_range t i c [v]"

definition remove_row :: "nat \<Rightarrow> sheet \<Rightarrow> sheet" where
  "remove_row i s = take (i - 1) s @ drop i s"

definition delete_rows :: "ws \<Rightarrow> nat \<Rightarrow> unit io" where
  "delete_rows t i = api_call (\<lambda>w. ((), put_sheet t (remove_row i (sheet_of t w)) w))"

subsection \<open>Clock and randomness\<close>

definition utcnow :: "int io" where
  "utcnow w = (Inr (clock w), w)"

text \<open>\<open>time.sleep(d)\<close> raises ValueError for a negative duration.\<close>

definition sleep :: "int \<Rightarrow> unit io" where
  "sleep d w = (if d < 0 then (Inl ValueError, w) else (Inr (), w\<lparr>clock := clock w + d\<rparr>))"

definition uuid4 :: "string io" where
  "uuid4 w = (Inr (str_uuid (shd (uuid_src w))), w\<lparr>uuid_src := stl (uuid_src w)\<rparr>)"

section \<open>The store: class GoogleSheetsStoreWithLocks\<close>

definition HEADERS :: row where
  "HEADERS = [''date'', ''court'', ''blockId'', ''user'', ''note'', ''createdAt'']"

definition VERS_HEADERS :: row where
  "VERS_HEADERS = [''date'', ''version'']"

definition LOCK_HEADERS :: row where
  "LOCK_HEADERS = [''date'', ''token'', ''user'', ''expiresAt'']"

subsection \<open>Worksheet helpers\<close>

text \<open>
  \<open>_ensure_ws\<close>: a worksheet that does not exist yet is created empty, which is the empty
  sheet here. \<open>ws.clear()\<close> empties the sheet.
\<close>

definition clear :: "ws \<Rightarrow> unit io" where
  "clear t = api_call (\<lambda>w. ((), put_sheet t [] w))"

definition ensure_ws :: "ws \<Rightarrow> row \<Rightarrow> unit io" where
  "ensure_ws t headers =
     io_bind (row_values t 1) (\<lambda>first.
       if first \<noteq> headers then io_bind (clear t) (\<lambda>_. append_row t headers)
       else io_return ())"

definition init :: "unit io" where
  "init = io_bind (ensure_ws Resv HEADERS) (\<lambda>_.
          io_bind (ensure_ws Vers VERS_HEADERS) (\<lambda>_.
          ensure_ws Lock LOCK_HEADERS))"

definition read_all :: "ws \<Rightarrow> sheet io" where
  "read_all t = get_all_values t"

text \<open>The loop of \<open>_find_rows_for_date\<close> over the values read, and the method.\<close>

definition rows_for_date :: "sheet \<Rightarrow> string \<Rightarrow> nat list" where
  "rows_for_date vals date_key =
     map fst (filter (\<lambda>(idx, row). idx \<noteq> 1 \<and> length row > 0 \<and> row ! 0 = date_key)
                     (enumerate 1 vals))"

definition find_rows_for_date :: "ws \<Rightarrow> string \<Rightarrow> nat list io" where
  "find_rows_for_date t date_key =
     io_bind (read_all t) (\<lambda>vals. io_return (rows_for_date vals date_key))"

subsection \<open>Version (OCC)\<close>

text \<open>
  Both version methods scan for the first row after the header that has at least two
  cells and the key in its first cell.
\<close>

definition version_row :: "sheet \<Rightarrow> string \<Rightarrow> (nat \<times> row) option" where
  "version_row vals date_key =
     find (\<lambda>(idx, row). idx \<noteq> 1 \<and> length row \<ge> 2 \<and> row ! 0 = date_key) (enumerate 1 vals)"

definition stored_version :: "sheet \<Rightarrow> string \<Rightarrow> int" where
  "stored_version vals date_key =
     (case version_row vals date_key of
        Some (idx, row) \<Rightarrow> (case py_int (row ! 1) of Some v \<Rightarrow> v | None \<Rightarrow> 0)
      | None \<Rightarrow> 0)"

definition get_version :: "string \<Rightarrow> int io" where
  "get_version date_key =
     io_bind (read_all Vers) (\<lambda>vals. io_return (stored_version vals date_key))"

definition set_version :: "string \<Rightarrow> int \<Rightarrow> unit io" where
  "set_version date_key new_version =
     io_bind (read_all Vers) (\<lambda>vals.
       case version_row vals date_key of
         Some (idx, row) \<Rightarrow> update_cell Vers idx 2 (str_int new_version)
       | None \<Rightarrow> append_row Vers [date_key, str_int new_version])"

subsection \<open>Lock helpers\<close>

definition lock_row :: "sheet \<Rightarrow> string \<Rightarrow> nat option" where
  "lock_row vals date_key =
     map_option fst
       (find (\<lambda>(idx, row). idx \<noteq> 1 \<and> length row \<ge> 1 \<and> row ! 0 = date_key) (enumerate 1 vals))"

definition lock_row_index :: "string \<Rightarrow> nat option io" where
  "lock_row_index date_key =
     io_bind (read_all Lock) (\<lambda>vals. io_return (lock_row vals date_key))"

text \<open>
  \<open>blocked\<close> is the test of line 109 on a lock row read at time \<open>now\<close>: the row holds a
  non-empty token other than the caller's, and an expiry that parses and lies after
  \<open>now\<close>.
\<close>

definition lock_expired :: "datetime_lib \<Rightarrow> row \<Rightarrow> int \<Rightarrow> bool" where
  "lock_expired dt row now =
     (let cur_exp = strip (if length row > 3 then row ! 3 else [])
      in if cur_exp \<noteq> [] then
           (case fromisoformat dt (replace_Z cur_exp) of Some e \<Rightarrow> e \<le> now | None \<Rightarrow> True)
         else True)"

definition blocked :: "datetime_lib \<Rightarrow> row \<Rightarrow> int \<Rightarrow> string \<Rightarrow> bool" where
  "blocked dt row now token =
     (let cur_token = strip (if length row > 1 then row ! 1 else [])
      in cur_token \<noteq> [] \<and> \<not> lock_expired dt row now \<and> cur_token \<noteq> token)"

text \<open>
  The loop of \<open>acquire_lock\<close> over the attempts still to make. Times are in microseconds:
  \<open>ttl_sec\<close> counts seconds, \<open>backoff\<close> counts microseconds (the default 0.5 s is 500000).
\<close>

fun acquire_loop ::
  "datetime_lib \<Rightarrow> string \<Rightarrow> string \<Rightarrow> int \<Rightarrow> int \<Rightarrow> string \<Rightarrow> nat list \<Rightarrow> string option io"
where
  "acquire_loop dt date_key user ttl_sec backoff token [] = io_return None"
| "acquire_loop dt date_key user ttl_sec backoff token (attempt # rest) =
     io_bind (lock_row_index date_key) (\<lambda>row_idx.
     io_bind utcnow (\<lambda>now.
       let expires_at = now + ttl_sec * 1000000;
           retry = io_bind (sleep (backoff * (int attempt + 1)))
                     (\<lambda>_. acquire_loop dt date_key user ttl_sec backoff token rest);
           recheck =
             io_bind (lock_row_index date_key) (\<lambda>row_idx2.
             io_bind (case row_idx2 of None \<Rightarrow> io_return [] | Some i \<Rightarrow> row_values Lock i)
               (\<lambda>row2.
                 if length row2 \<ge> 4 \<and> row2 ! 0 = date_key \<and> row2 ! 1 = token
                 then io_return (Some token)
                 else retry))
       in case row_idx of
            None \<Rightarrow>
              io_bind (append_row Lock [date_key, token, user, isoformat dt expires_at @ ''Z''])
                (\<lambda>_. recheck)
          | Some i \<Rightarrow>
              io_bind (row_values Lock i) (\<lambda>row.
                if blocked dt row now token then retry
                else io_bind
                       (update_range Lock i 2 [token, user, isoformat dt expires_at @ ''Z''])
                       (\<lambda>_. recheck))))"

definition acquire_lock ::
  "datetime_lib \<Rightarrow> string \<Rightarrow> string \<Rightarrow> int \<Rightarrow> nat \<Rightarrow> int \<Rightarrow> string option io"
where
  "acquire_lock dt date_key user ttl_sec max_retry backoff =
     io_bind uuid4 (\<lambda>token.
       acquire_loop dt date_key user ttl_sec backoff token [0..<max_retry])"

definition release_lock :: "datetime_lib \<Rightarrow> string \<Rightarrow> string \<Rightarrow> unit io" where
  "release_lock dt date_key token =
     io_bind (lock_row_index date_key) (\<lambda>idx.
       case idx of
         None \<Rightarrow> io_return ()
       | Some i \<Rightarrow>
           io_bind (row_values Lock i) (\<lambda>row.
             if length row \<ge> 2 \<and> row ! 1 = token then
               io_bind utcnow (\<lambda>now.
                 update_range Lock i 2 [[], [], isoformat dt (now - 1000000) @ ''Z''])
             else io_return ()))"

subsection \<open>Partial load/save by date\<close>

text \<open>
  A Python \<open>dict\<close> is an association list in insertion order with distinct keys;
  \<open>d[k] = v\<close> is \<open>AList.update k v d\<close>, which overwrites in place or appends. A slot is a
  dict of texts, a lane maps block ids to a slot or \<open>None\<close>, a day maps lane names to lanes.
\<close>

type_synonym slot = "(string \<times> string) list"
type_synonym lane = "(string \<times> slot option) list"
type_synonym day = "(string \<times> lane) list"

definition session_blocks :: "string list io" where
  "session_blocks w = (Inr (blocks w), w)"

definition empty_lane :: "string list \<Rightarrow> lane" where
  "empty_lane bs = fold (\<lambda>b d. AList.update b None d) bs []"

definition init_day :: "string list \<Rightarrow> day" where
  "init_day bs =
     fold (\<lambda>side d. AList.update side (empty_lane bs) d) [''A'', ''B''] [(''A'', []), (''B'', [])]"

text \<open>
  \<open>day[court][block_id] = slot\<close>; the lane is always present where the source does this
  (\<open>court\<close> is A or B there).
\<close>

definition set_slot :: "string \<Rightarrow> string \<Rightarrow> slot \<Rightarrow> day \<Rightarrow> day" where
  "set_slot court block_id slot d =
     (case map_of d court of
        Some lane \<Rightarrow> AList.update court (AList.update block_id (Some slot) lane) d
      | None \<Rightarrow> d)"

definition put_row :: "row \<Rightarrow> day \<Rightarrow> day" where
  "put_row row d =
     (if length row \<ge> 6 then
        (let court = row ! 1; block_id = row ! 2; user = row ! 3; note = row ! 4;
             created = row ! 5
         in if court = ''A'' \<or> court = ''B'' then
              set_slot court block_id
                [(''user'', user), (''note'', note), (''createdAt'', created)] d
            else d)
      else d)"

fun load_rows :: "nat list \<Rightarrow> day \<Rightarrow> day io" where
  "load_rows [] d = io_return d"
| "load_rows (r # rs) d = io_bind (row_values Resv r) (\<lambda>row. load_rows rs (put_row row d))"

definition load_date :: "string \<Rightarrow> (day \<times> int) io" where
  "load_date date_key =
     io_bind session_blocks (\<lambda>bs.
     io_bind (find_rows_for_date Resv date_key) (\<lambda>row_idxs.
     io_bind (load_rows row_idxs (init_day bs)) (\<lambda>d.
     io_bind (get_version date_key) (\<lambda>ver.
     io_return (d, ver)))))"

definition slot_get :: "slot \<Rightarrow> string \<Rightarrow> string \<Rightarrow> string" where
  "slot_get slot k dflt = (case map_of slot k of Some v \<Rightarrow> v | None \<Rightarrow> dflt)"

text \<open>
  The rows built for one lane at time \<open>now\<close>. A slot that is \<open>None\<close> or an empty dict is
  falsy and gives no row; an empty or missing \<open>createdAt\<close> is replaced by the time of the
  commit.
\<close>

definition slot_row :: "datetime_lib \<Rightarrow> string \<Rightarrow> string \<Rightarrow> string \<Rightarrow> slot \<Rightarrow> int \<Rightarrow> row" where
  "slot_row dt date_key court block_id slot now =
     [date_key, court, block_id, slot_get slot ''user'' [], slot_get slot ''note'' [],
      (let c = slot_get slot ''createdAt'' [] in if c \<noteq> [] then c else isoformat dt now @ ''Z'')]"

definition lane_rows :: "datetime_lib \<Rightarrow> string \<Rightarrow> string \<Rightarrow> lane \<Rightarrow> int \<Rightarrow> row list" where
  "lane_rows dt date_key court lane now =
     concat (map (\<lambda>(block_id, s).
        case s of
          None \<Rightarrow> []
        | Some slot \<Rightarrow> if slot \<noteq> [] then [slot_row dt date_key court block_id slot now] else [])
      lane)"

definition new_rows :: "datetime_lib \<Rightarrow> string \<Rightarrow> day \<Rightarrow> int \<Rightarrow> row list" where
  "new_rows dt date_key d now =
     concat (map (\<lambda>court.
        lane_rows dt date_key court (case map_of d court of Some l \<Rightarrow> l | None \<Rightarrow> []) now)
      [''A'', ''B''])"

fun delete_each :: "nat list \<Rightarrow> unit io" where
  "delete_each [] = io_return ()"
| "delete_each (r # rs) = io_bind (delete_rows Resv r) (\<lambda>_. delete_each rs)"

text \<open>Lines 154 to 173 of \<open>save_date\<close>: the version check, the overwrite, the bump.\<close>

definition save_steps ::
  "datetime_lib \<Rightarrow> string \<Rightarrow> day \<Rightarrow> int \<Rightarrow> (bool \<times> string) io"
where
  "save_steps dt date_key d expected_version =
     io_bind (get_version date_key) (\<lambda>current_version.
       if current_version \<noteq> expected_version then io_return (False, ''VERSION_CONFLICT'')
       else
         io_bind (find_rows_for_date Resv date_key) (\<lambda>idxs.
         io_bind (delete_each (rev (sort idxs))) (\<lambda>_.
         io_bind utcnow (\<lambda>now.
         io_bind (let rows = new_rows dt date_key d now
                  in if rows \<noteq> [] then append_rows Resv rows else io_return ()) (\<lambda>_.
         io_bind (set_version date_key (current_version + 1)) (\<lambda>_.
         io_return (True, [])))))))"

text \<open>
  The \<open>try\<close> block of \<open>save_date\<close>: its outcome (a result, or the error raised) together
  with the value of the variable \<open>token\<close> when the block is left. \<open>acquire_lock\<close> is
  called with its defaults: 5 attempts, 0.5 seconds of backoff.
\<close>

definition save_try ::
  "datetime_lib \<Rightarrow> string \<Rightarrow> day \<Rightarrow> int \<Rightarrow> string \<Rightarrow> bool \<Rightarrow> int \<Rightarrow>
   world \<Rightarrow> (string option \<times> (error + bool \<times> string)) \<times> world"
where
  "save_try dt date_key d expected_version user use_lock ttl_sec w =
     (if use_lock then
        (case acquire_lock dt date_key user ttl_sec 5 500000 w of
           (Inl e, w1) \<Rightarrow> ((None, Inl e), w1)
         | (Inr token, w1) \<Rightarrow>
             if token = None \<or> token = Some [] then ((token, Inr (False, ''LOCK_FAIL'')), w1)
             else (case save_steps dt date_key d expected_version w1 of
                     (r, w2) \<Rightarrow> ((token, r), w2)))
      else (case save_steps dt date_key d expected_version w of
              (r, w2) \<Rightarrow> ((None, r), w2)))"

text \<open>
  \<open>save_date\<close>: the \<open>try\<close> block, then the \<open>finally\<close> clause. An error raised by
  \<open>release_lock\<close> inside \<open>finally\<close> replaces the outcome of the block.
\<close>

definition save_date ::
  "datetime_lib \<Rightarrow> string \<Rightarrow> day \<Rightarrow> int \<Rightarrow> string \<Rightarrow> bool \<Rightarrow> int \<Rightarrow> (bool \<times> string) io"
where
  "save_date dt date_key d expected_version user use_lock ttl_sec w =
     (case save_try dt date_key d expected_version user use_lock ttl_sec w of
        ((token, r), w1) \<Rightarrow>
          (case token of
             Some tok \<Rightarrow>
               if use_lock \<and> tok \<noteq> [] then
                 (case release_lock dt date_key tok w1 of
                    (Inl e, w2) \<Rightarrow> (Inl e, w2)
                  | (Inr u, w2) \<Rightarrow> (r, w2))
               else (r, w1)
           | None \<Rightarrow> (r, w1)))"

section \<open>Auxiliary notions\<close>

text \<open>Texts made of decimal digits only.\<close>

definition digits :: "string \<Rightarrow> bool" where
  "digits s = (\<forall>c \<in> set s. \<exists>d<10. c = digit_char d)"


text \<open>An operation keeps an observation \<open>f\<close> of the world when no run of it changes \<open>f\<close>.\<close>

definition keeps :: "(world \<Rightarrow> 'b) \<Rightarrow> 'a io \<Rightarrow> bool" where
  "keeps f m = (\<forall>w. f (snd (m w)) = f w)"


text \<open>
  A run that returns normally met no transport fault, so it is also a run of the world
  without faults: \<open>calm\<close> forgets the faults to come.
\<close>

definition calm :: "world \<Rightarrow> world" where
  "calm w = w\<lparr>faults := []\<rparr>"

definition fault_blind :: "'a io \<Rightarrow> bool" where
  "fault_blind m = (\<forall>w x w'. m w = (Inr x, w') \<longrightarrow> m (calm w) = (Inr x, calm w'))"

text \<open>
  The scans of the store in one shape: the first row after the header that satisfies a
  test, with its index.
\<close>

definition first_row :: "(row \<Rightarrow> bool) \<Rightarrow> sheet \<Rightarrow> (nat \<times> row) option" where
  "first_row Q s = find (\<lambda>(idx, row). idx \<noteq> 1 \<and> Q row) (enumerate 1 s)"

definition vers_row :: "string \<Rightarrow> row \<Rightarrow> bool" where
  "vers_row k r = (length r \<ge> 2 \<and> r ! 0 = k)"

definition key_row :: "string \<Rightarrow> row \<Rightarrow> bool" where
  "key_row k r = (length r \<ge> 1 \<and> r ! 0 = k)"

text \<open>The versions sheet after \<open>_set_version\<close>, and a sheet without the rows of a key.\<close>

definition put_version :: "sheet \<Rightarrow> string \<Rightarrow> int \<Rightarrow> sheet" where
  "put_version s k v =
     (case version_row s k of
        Some (idx, row) \<Rightarrow> set_range idx 2 [str_int v] s
      | None \<Rightarrow> s @ [[k, str_int v]])"

definition purge :: "string \<Rightarrow> sheet \<Rightarrow> sheet" where
  "purge k s = (case s of [] \<Rightarrow> [] | h # t \<Rightarrow> h # filter (\<lambda>r. \<not> key_row k r) t)"

text \<open>Every value that an operation returns has the property \<open>P\<close>.\<close>

definition yields :: "('a \<Rightarrow> bool) \<Rightarrow> 'a io \<Rightarrow> bool" where
  "yields P m = (\<forall>w x w'. m w = (Inr x, w') \<longrightarrow> P x)"

text \<open>An initialised store without data, for concrete runs.\<close>

definition fresh_store :: world where
  "fresh_store = \<lparr> ws_resv = [HEADERS], ws_vers = [VERS_HEADERS], ws_lock = [LOCK_HEADERS],
     blocks = [''LUNCHA'', ''LUNCHB'', ''AFTER''], clock = 0, uuid_src = sconst 0, faults = [] \<rparr>"

text \<open>
  The lock record of a key as \<open>acquire_lock\<close> and \<open>release_lock\<close> read it: the row at the
  index that \<open>_lock_row_index\<close> finds.
\<close>

definition lock_record :: "sheet \<Rightarrow> string \<Rightarrow> row option" where
  "lock_record s k = (case lock_row s k of None \<Rightarrow> None | Some i \<Rightarrow> Some (nth_row s i))"

text \<open>
  A record is held by another caller at time \<open>now\<close> when its token, stripped, is not empty
  and not \<open>token\<close>, and its expiry, stripped, is not empty, parses, and lies after \<open>now\<close>.
\<close>

definition held_by_other :: "datetime_lib \<Rightarrow> row \<Rightarrow> int \<Rightarrow> string \<Rightarrow> bool" where
  "held_by_other dt row now token =
     (length row > 3 \<and> strip (row ! 1) \<noteq> [] \<and> strip (row ! 1) \<noteq> token \<and> strip (row ! 3) \<noteq> []
      \<and> (case fromisoformat dt (replace_Z (strip (row ! 3))) of Some e \<Rightarrow> now < e | None \<Rightarrow> False))"

text \<open>The lock sheet after the write of one attempt of \<open>acquire_lock\<close>.\<close>

definition grab :: "sheet \<Rightarrow> string \<Rightarrow> string list \<Rightarrow> sheet" where
  "grab s k cells =
     (case lock_row s k of None \<Rightarrow> s @ [k # cells] | Some i \<Rightarrow> set_range i 2 cells s)"

text \<open>The time slept after the attempts \<open>atts\<close>.\<close>

definition waited :: "int \<Rightarrow> nat list \<Rightarrow> int" where
  "waited backoff atts = backoff * sum_list (map (\<lambda>a. int a + 1) atts)"

text \<open>A store whose lock for 2024-01-01 another client holds until second 99.\<close>

definition held_store :: world where
  "held_store = fresh_store\<lparr>ws_lock :=
     [LOCK_HEADERS, [''2024-01-01'', ''tok-bob'', ''bob'', ''99000000Z'']]\<rparr>"



text \<open>
  Histories of a store as seen from one key: \<open>commits k w n w'\<close> holds when \<open>w'\<close> is reached
  from \<open>w\<close> by calls of \<open>save_date\<close> that all returned, \<open>n\<close> of them successful commits
  to \<open>k\<close>, the others failed commits to \<open>k\<close> or commits (failed or not) to other keys.
\<close>

inductive commits :: "string \<Rightarrow> world \<Rightarrow> nat \<Rightarrow> world \<Rightarrow> bool" for k :: string and w :: world where
  start: "commits k w 0 w"
| success: "commits k w n w1 \<Longrightarrow> save_date dt k d v u ul ttl w1 = (Inr (True, []), w2) \<Longrightarrow>
            commits k w (Suc n) w2"
| failure: "commits k w n w1 \<Longrightarrow> save_date dt k d v u ul ttl w1 = (Inr (False, reason), w2) \<Longrightarrow>
            commits k w n w2"
| other: "commits k w n w1 \<Longrightarrow> k' \<noteq> k \<Longrightarrow> save_date dt k' d v u ul ttl w1 = (Inr res, w2) \<Longrightarrow>
          commits k w n w2"

text \<open>A versions sheet whose cell for 2024-01-01 is not a number.\<close>

definition garbled_store :: world where
  "garbled_store = fresh_store\<lparr>ws_vers := [VERS_HEADERS, [''2024-01-01'', ''abc'']]\<rparr>"

text \<open>
  The scenario of the specification: alice books lane A, bob lane B, both at LUNCHA of
  2024-01-01.
\<close>

definition slot_alice :: slot where
  "slot_alice = [(''user'', ''alice''), (''note'', []), (''createdAt'', ''2024-01-01T09:00:00'')]"

definition slot_bob :: slot where
  "slot_bob = [(''user'', ''bob''), (''note'', ''doubles''), (''createdAt'', ''2024-01-01T09:05:00'')]"

definition day_alice :: day where
  "day_alice = [(''A'', [(''LUNCHA'', Some slot_alice), (''LUNCHB'', None), (''AFTER'', None)]),
                (''B'', [(''LUNCHA'', None), (''LUNCHB'', None), (''AFTER'', None)])]"

definition day_bob :: day where
  "day_bob = [(''A'', [(''LUNCHA'', None), (''LUNCHB'', None), (''AFTER'', None)]),
              (''B'', [(''LUNCHA'', Some slot_bob), (''LUNCHB'', None), (''AFTER'', None)])]"

definition day_both :: day where
  "day_both = [(''A'', [(''LUNCHA'', Some slot_alice), (''LUNCHB'', None), (''AFTER'', None)]),
               (''B'', [(''LUNCHA'', Some slot_bob), (''LUNCHB'', None), (''AFTER'', None)])]"

definition row_alice :: row where
  "row_alice = [''2024-01-01'', ''A'', ''LUNCHA'', ''alice'', [], ''2024-01-01T09:00:00'']"

definition row_bob :: row where
  "row_bob = [''2024-01-01'', ''B'', ''LUNCHA'', ''bob'', ''doubles'', ''2024-01-01T09:05:00'']"

definition after_alice :: world where
  "after_alice = fresh_store\<lparr>
     ws_resv := [HEADERS, row_alice],
     ws_vers := [VERS_HEADERS, [''2024-01-01'', ''1'']],
     ws_lock := [LOCK_HEADERS, [''2024-01-01'', [], [], ''-1000000Z'']]\<rparr>"

definition after_both :: world where
  "after_both = fresh_store\<lparr>
     ws_resv := [HEADERS, row_alice, row_bob],
     ws_vers := [VERS_HEADERS, [''2024-01-01'', ''2'']],
     ws_lock := [LOCK_HEADERS, [''2024-01-01'', [], [], ''-1000000Z'']]\<rparr>"

text \<open>
  What \<open>load_date\<close> builds from the rows of a key: each lane starts with the configured
  blocks set to \<open>None\<close> and takes, in row order, the slot of every row of six cells or more
  that names the lane.
\<close>

definition row_slot :: "row \<Rightarrow> slot" where
  "row_slot row = [(''user'', row ! 3), (''note'', row ! 4), (''createdAt'', row ! 5)]"

definition lane_put :: "string \<Rightarrow> row list \<Rightarrow> lane \<Rightarrow> lane" where
  "lane_put court rows l =
     fold (\<lambda>row l. if length row \<ge> 6 \<and> row ! 1 = court
                     then AList.update (row ! 2) (Some (row_slot row)) l else l) rows l"

definition loaded :: "string list \<Rightarrow> row list \<Rightarrow> day" where
  "loaded bs rows =
     [(''A'', lane_put ''A'' rows (empty_lane bs)), (''B'', lane_put ''B'' rows (empty_lane bs))]"

text \<open>
  Equality of Python dicts in the association list model: the same keys, and related
  values under each key.
\<close>

definition dict_eq :: "('v \<Rightarrow> 'v \<Rightarrow> bool) \<Rightarrow> (string \<times> 'v) list \<Rightarrow> (string \<times> 'v) list \<Rightarrow> bool" where
  "dict_eq R d d' =
     (set (map fst d) = set (map fst d')
      \<and> (\<forall>k \<in> set (map fst d). rel_option R (map_of d k) (map_of d' k)))"

definition same_slot :: "slot \<Rightarrow> slot \<Rightarrow> bool" where
  "same_slot = dict_eq (=)"

definition same_lane :: "lane \<Rightarrow> lane \<Rightarrow> bool" where
  "same_lane = dict_eq (rel_option same_slot)"

definition same_day :: "day \<Rightarrow> day \<Rightarrow> bool" where
  "same_day = dict_eq same_lane"

text \<open>\<open>day[c][b]\<close>, with \<open>None\<close> for a missing lane or block.\<close>

definition slot_at :: "day \<Rightarrow> string \<Rightarrow> string \<Rightarrow> slot option option" where
  "slot_at d c b = (case map_of d c of None \<Rightarrow> None | Some lane \<Rightarrow> map_of lane b)"

text \<open>The slot that \<open>load_date\<close> reads back from the row written for a slot at time \<open>now\<close>.\<close>

definition stored_slot :: "datetime_lib \<Rightarrow> int \<Rightarrow> slot \<Rightarrow> slot" where
  "stored_slot dt now slot =
     [(''user'', slot_get slot ''user'' []), (''note'', slot_get slot ''note'' []),
      (''createdAt'',
         let c = slot_get slot ''createdAt'' [] in if c \<noteq> [] then c else isoformat dt now @ ''Z'')]"

text \<open>The entries of a lane that \<open>save_date\<close> writes: slots that are neither \<open>None\<close> nor empty.\<close>

definition kept :: "lane \<Rightarrow> (string \<times> slot) list" where
  "kept lane =
     concat (map (\<lambda>(b, s). case s of None \<Rightarrow> []
                   | Some slot \<Rightarrow> if slot \<noteq> [] then [(b, slot)] else []) lane)"

text \<open>
  The shape of the days that \<open>load_date\<close> produces and the application passes on: lanes A
  and B only; in each lane distinct block ids that include every configured block;
  \<open>None\<close> only under configured blocks; occupied slots with exactly the keys \<open>user\<close>,
  \<open>note\<close>, \<open>createdAt\<close> and a non-empty \<open>createdAt\<close>.
\<close>

definition slot_ok :: "slot \<Rightarrow> bool" where
  "slot_ok slot =
     (set (map fst slot) = {''user'', ''note'', ''createdAt''} \<and> slot_get slot ''createdAt'' [] \<noteq> [])"

definition lane_ok :: "string list \<Rightarrow> lane \<Rightarrow> bool" where
  "lane_ok bs lane =
     (distinct (map fst lane) \<and> set bs \<subseteq> set (map fst lane)
      \<and> (\<forall>(b, s) \<in> set lane. case s of None \<Rightarrow> b \<in> set bs | Some slot \<Rightarrow> slot_ok slot))"

definition normal_day :: "string list \<Rightarrow> day \<Rightarrow> bool" where
  "normal_day bs d =
     (set (map fst d) = {''A'', ''B''}
      \<and> (\<forall>c \<in> {''A'', ''B''}. case map_of d c of None \<Rightarrow> False | Some lane \<Rightarrow> lane_ok bs lane))"

text \<open>
  What \<open>load_date\<close> returns under lane \<open>c\<close> and block \<open>b\<close> right after a commit of \<open>d\<close> at
  time \<open>now\<close>, with the block list \<open>bs\<close>: the stored form of a non-empty slot, else \<open>None\<close>
  for a configured block, else nothing.
\<close>

definition read_back ::
  "datetime_lib \<Rightarrow> int \<Rightarrow> string list \<Rightarrow> day \<Rightarrow> string \<Rightarrow> string \<Rightarrow> slot option option"
where
  "read_back dt now bs d c b =
     (case slot_at d c b of
        Some (Some slot) \<Rightarrow>
          if slot \<noteq> [] then Some (Some (stored_slot dt now slot))
          else if b \<in> set bs then Some None else None
      | _ \<Rightarrow> if b \<in> set bs then Some None else None)"

text \<open>The lane of a day, empty when the day has no such lane (\<open>day.get(court) or {}\<close>).\<close>

definition lane_of :: "day \<Rightarrow> string \<Rightarrow> lane" where
  "lane_of d c = (case map_of d c of Some l \<Rightarrow> l | None \<Rightarrow> [])"

text \<open>A booking whose \<open>createdAt\<close> is still empty, and the day read back after its commit.\<close>

definition day_unstamped :: day where
  "day_unstamped =
     [(''A'', [(''LUNCHA'', Some [(''user'', ''alice''), (''note'', []), (''createdAt'', [])]),
               (''LUNCHB'', None), (''AFTER'', None)]),
      (''B'', [(''LUNCHA'', None), (''LUNCHB'', None), (''AFTER'', None)])]"

definition day_stamped :: day where
  "day_stamped =
     [(''A'', [(''LUNCHA'', Some [(''user'', ''alice''), (''note'', []), (''createdAt'', ''0Z'')]),
               (''LUNCHB'', None), (''AFTER'', None)]),
      (''B'', [(''LUNCHA'', None), (''LUNCHB'', None), (''AFTER'', None)])]"

definition after_unstamped :: world where
  "after_unstamped = fresh_store\<lparr>
     ws_resv := [HEADERS, [''2024-01-01'', ''A'', ''LUNCHA'', ''alice'', [], ''0Z'']],
     ws_vers := [VERS_HEADERS, [''2024-01-01'', ''1'']],
     ws_lock := [LOCK_HEADERS, [''2024-01-01'', [], [], ''-1000000Z'']]\<rparr>"



section \<open>Library facts\<close>

subsection \<open>\<open>int(str(n))\<close> is \<open>n\<close>\<close>


lemma digit_char_val: "d < 10 \<Longrightarrow> is_digit (digit_char d) \<and> digit_val (digit_char d) = d"
proof -
  assume "d < 10"
  then have "d \<in> {0,1,2,3,4,5,6,7,8,9}" by auto
  then show ?thesis
    by (auto simp: digit_char_def is_digit_def digit_val_def)
qed

lemma digit_char_plain: "d < 10 \<Longrightarrow> digit_char d \<noteq> CHR ''_'' \<and> digit_char d \<noteq> CHR ''-'' \<and> digit_char d \<noteq> CHR ''+'' \<and> \<not> is_space (digit_char d) \<and> digit_char d \<noteq> CHR ''Z''"
proof -
  assume "d < 10"
  then have "d \<in> {0,1,2,3,4,5,6,7,8,9}" by auto
  then show ?thesis
    by (auto simp: digit_char_def is_space_def)
qed

lemma py_digits_snoc:
  "digits s \<Longrightarrow> d < 10 \<Longrightarrow> py_digits acc (s @ [digit_char d]) = map_option (\<lambda>v. 10 * v + d) (py_digits acc s)"
proof (induction acc s rule: py_digits.induct)
  case (1 acc)
  then show ?case by (simp add: digit_char_val)
next
  case (2 acc c)
  then show ?case by (auto simp: digits_def digit_char_val digit_char_plain)
next
  case (3 acc c d' cs)
  then show ?case by (auto simp: digits_def digit_char_val digit_char_plain)
qed

lemma py_digits_digits: "digits s \<Longrightarrow> py_digits acc s \<noteq> None"
  by (induction acc s rule: py_digits.induct) (auto simp: digits_def digit_char_val digit_char_plain)

lemma digits_snoc: "digits s \<Longrightarrow> d < 10 \<Longrightarrow> digits (s @ [digit_char d])"
  by (auto simp: digits_def)

lemma str_nat_digits: "digits (str_nat n)"
proof (induction n rule: str_nat.induct)
  case (1 n)
  show ?case
  proof (cases "n < 10")
    case True
    then have "digits ([] @ [digit_char n])" by (intro digits_snoc) (simp_all add: digits_def)
    with True show ?thesis by (subst str_nat.simps) simp
  next
    case False
    with 1 have "digits (str_nat (n div 10))" by simp
    then have "digits (str_nat (n div 10) @ [digit_char (n mod 10)])" by (intro digits_snoc) simp_all
    with False show ?thesis by (subst str_nat.simps) simp
  qed
qed

lemma str_nat_ne: "str_nat n \<noteq> []"
  by (subst str_nat.simps) simp

lemma py_nat_snoc:
  "digits s \<Longrightarrow> s \<noteq> [] \<Longrightarrow> d < 10 \<Longrightarrow> py_nat (s @ [digit_char d]) = map_option (\<lambda>v. 10 * v + d) (py_nat s)"
  by (cases s) (auto simp: py_nat_def py_digits_snoc digits_def digit_char_val)

lemma py_nat_str_nat: "py_nat (str_nat n) = Some n"
proof (induction n rule: str_nat.induct)
  case (1 n)
  show ?case
  proof (cases "n < 10")
    case True
    then show ?thesis
      by (subst str_nat.simps) (simp add: py_nat_def digit_char_val)
  next
    case False
    with 1 have ih: "py_nat (str_nat (n div 10)) = Some (n div 10)" by simp
    have "py_nat (str_nat (n div 10) @ [digit_char (n mod 10)]) = Some n"
      using py_nat_snoc [OF str_nat_digits str_nat_ne, of "n mod 10" "n div 10"] ih by simp
    with False show ?thesis by (subst str_nat.simps) simp
  qed
qed

lemma strip_no_space: "\<forall>c \<in> set s. \<not> is_space c \<Longrightarrow> strip s = s"
proof -
  assume a: "\<forall>c \<in> set s. \<not> is_space c"
  then have 1: "dropWhile is_space s = s" by (cases s) auto
  from a have "\<forall>c \<in> set (rev s). \<not> is_space c" by simp
  then have 2: "dropWhile is_space (rev s) = rev s" by (cases "rev s") auto
  show ?thesis by (simp add: strip_def 1 2)
qed

lemma digits_no_space: "digits s \<Longrightarrow> c \<in> set s \<Longrightarrow> \<not> is_space c \<and> c \<noteq> CHR ''Z'' \<and> c \<noteq> CHR ''-'' \<and> c \<noteq> CHR ''+''"
proof -
  assume "digits s" "c \<in> set s"
  then obtain d where "d < 10" "c = digit_char d" by (auto simp: digits_def)
  then show ?thesis using digit_char_plain [of d] by simp
qed

lemma str_int_plain: "c \<in> set (str_int i) \<Longrightarrow> c \<noteq> CHR ''Z'' \<and> \<not> is_space c"
  using digits_no_space [OF str_nat_digits]
  by (auto simp: str_int_def is_space_def split: if_splits)

lemma strip_str_int: "strip (str_int i) = str_int i"
  using str_int_plain by (intro strip_no_space) blast

lemma py_int_str_int: "py_int (str_int i) = Some i"
proof (cases "i < 0")
  case True
  then show ?thesis
    by (simp add: py_int_def strip_str_int) (simp add: str_int_def py_nat_str_nat)
next
  case False
  obtain c cs where e: "str_nat (nat i) = c # cs" using str_nat_ne [of "nat i"] by (cases "str_nat (nat i)") auto
  have "c \<in> set (str_nat (nat i))" by (simp add: e)
  then have "c \<noteq> CHR ''-'' \<and> c \<noteq> CHR ''+''" using digits_no_space [OF str_nat_digits] by blast
  moreover have "py_nat (c # cs) = Some (nat i)" using py_nat_str_nat [of "nat i"] e by simp
  ultimately show ?thesis using False e
    by (simp add: py_int_def strip_str_int) (simp add: str_int_def)
qed

lemma decimal_time_ok: "datetime_ok decimal_time"
  using str_int_plain by (auto simp: datetime_ok_def decimal_time_def py_int_str_int)

lemma str_uuid_ne: "str_uuid n \<noteq> []"
  by (simp add: str_uuid_def Let_def)

subsection \<open>What the operations leave alone\<close>


lemma api_call_ok: "faults w = [] \<Longrightarrow> api_call f w = (Inr (fst (f w)), snd (f w))"
  by (simp add: api_call_def split: prod.splits)

lemma faults_put_sheet [simp]: "faults (put_sheet t s w) = faults w"
  by (cases t) simp_all

lemma clock_put_sheet [simp]: "clock (put_sheet t s w) = clock w"
  by (cases t) simp_all

lemma sheet_of_put_sheet [simp]: "sheet_of t (put_sheet t' s w) = (if t = t' then s else sheet_of t w)"
  by (cases t; cases t') simp_all

lemma sheet_of_faults [simp]: "sheet_of t (w\<lparr>faults := bs\<rparr>) = sheet_of t w"
  by (cases t) simp_all

lemma keepsD: "keeps f m \<Longrightarrow> m w = (r, w') \<Longrightarrow> f w' = f w"
  by (auto simp: keeps_def dest: spec [of _ w])

lemma keeps_return [intro!, simp]: "keeps f (io_return x)"
  by (simp add: keeps_def io_return_def)

lemma keeps_bind [intro!]: "keeps f m \<Longrightarrow> (\<And>x. keeps f (g x)) \<Longrightarrow> keeps f (io_bind m g)"
  unfolding keeps_def io_bind_def
proof (intro allI)
  fix w
  assume m: "\<forall>w. f (snd (m w)) = f w" and g: "\<And>x. \<forall>w. f (snd (g x w)) = f w"
  obtain r w' where e: "m w = (r, w')" by (cases "m w")
  with m have "f w' = f w" by (metis snd_conv)
  with e g show "f (snd (case m w of (Inl e, w') \<Rightarrow> (Inl e, w') | (Inr x, w') \<Rightarrow> g x w')) = f w"
    by (cases r) auto
qed

lemma keeps_if [intro!]: "keeps f a \<Longrightarrow> keeps f b \<Longrightarrow> keeps f (if c then a else b)"
  by simp

lemma keeps_option [intro!]:
  "keeps f a \<Longrightarrow> (\<And>x. keeps f (b x)) \<Longrightarrow> keeps f (case v of None \<Rightarrow> a | Some x \<Rightarrow> b x)"
  by (cases v) simp_all

lemma keeps_api:
  "(\<And>w. f (snd (g w)) = f w) \<Longrightarrow> (\<And>w bs. f (w\<lparr>faults := bs\<rparr>) = f w) \<Longrightarrow> keeps f (api_call g)"
  by (auto simp: keeps_def api_call_def split: list.splits prod.splits) (metis snd_conv)+

text \<open>Reads keep every sheet; a write keeps the other sheets.\<close>

lemma keeps_read [intro!, simp]:
  "keeps (sheet_of t) (get_all_values t')" "keeps (sheet_of t) (row_values t' i)"
  "keeps (sheet_of t) (read_all t')" 
  by (auto simp: get_all_values_def row_values_def read_all_def intro!: keeps_api)

lemma keeps_env [intro!, simp]:
  "keeps (sheet_of t) utcnow" "keeps (sheet_of t) (sleep d)" "keeps (sheet_of t) uuid4"
  "keeps (sheet_of t) session_blocks"
  by (cases t; simp add: keeps_def utcnow_def sleep_def uuid4_def session_blocks_def)+

lemma keeps_write [intro!, simp]:
  "t \<noteq> t' \<Longrightarrow> keeps (sheet_of t) (append_rows t' rs)"
  "t \<noteq> t' \<Longrightarrow> keeps (sheet_of t) (append_row t' r)"
  "t \<noteq> t' \<Longrightarrow> keeps (sheet_of t) (update_range t' i c vs)"
  "t \<noteq> t' \<Longrightarrow> keeps (sheet_of t) (update_cell t' i c v)"
  "t \<noteq> t' \<Longrightarrow> keeps (sheet_of t) (delete_rows t' i)"
  by (auto simp: append_rows_def append_row_def update_range_def update_cell_def delete_rows_def
      intro!: keeps_api)

lemma keeps_lock_row_index [intro!, simp]: "keeps (sheet_of t) (lock_row_index k)"
  by (auto simp: lock_row_index_def)

lemma keeps_find_rows [intro!, simp]: "keeps (sheet_of t) (find_rows_for_date t' k)"
  by (auto simp: find_rows_for_date_def)

lemma keeps_get_version [intro!, simp]: "keeps (sheet_of t) (get_version k)"
  by (auto simp: get_version_def)

lemma keeps_set_version [intro!, simp]: "t \<noteq> Vers \<Longrightarrow> keeps (sheet_of t) (set_version k v)"
  by (auto simp: set_version_def split: option.splits)

lemma keeps_acquire_loop: "t \<noteq> Lock \<Longrightarrow> keeps (sheet_of t) (acquire_loop dt k u ttl b tok atts)"
  by (induction atts) (auto simp: Let_def)

lemma keeps_acquire_lock: "t \<noteq> Lock \<Longrightarrow> keeps (sheet_of t) (acquire_lock dt k u ttl n b)"
  by (auto simp: acquire_lock_def keeps_acquire_loop)

lemma keeps_release_lock: "t \<noteq> Lock \<Longrightarrow> keeps (sheet_of t) (release_lock dt k tok)"
  by (auto simp: release_lock_def)


lemma keeps_load_rows: "keeps (sheet_of t) (load_rows rs d)"
  by (induction rs arbitrary: d) auto

lemma keeps_load_date: "keeps (sheet_of t) (load_date k)"
  by (auto simp: load_date_def keeps_load_rows)


subsection \<open>Runs that return normally do not depend on the faults\<close>

lemma calm_simps [simp]:
  "ws_resv (calm w) = ws_resv w" "ws_vers (calm w) = ws_vers w" "ws_lock (calm w) = ws_lock w"
  "blocks (calm w) = blocks w" "clock (calm w) = clock w" "uuid_src (calm w) = uuid_src w"
  "faults (calm w) = []" "sheet_of t (calm w) = sheet_of t w"
  by (simp_all add: calm_def)

lemma calm_put_sheet [simp]: "calm (put_sheet t s w) = put_sheet t s (calm w)"
  by (cases t) (simp_all add: calm_def)

lemma calm_faults [simp]: "calm (w\<lparr>faults := bs\<rparr>) = calm w"
  by (simp add: calm_def)

lemma calm_idem: "faults w = [] \<Longrightarrow> calm w = w"
  by (simp add: calm_def)

lemma fault_blindD: "fault_blind m \<Longrightarrow> m w = (Inr x, w') \<Longrightarrow> m (calm w) = (Inr x, calm w')"
  by (simp add: fault_blind_def)

lemma fb_return [intro!, simp]: "fault_blind (io_return x)"
  by (simp add: fault_blind_def io_return_def)

lemma fb_bind [intro!]:
  assumes "fault_blind m" and "\<And>x. fault_blind (g x)"
  shows "fault_blind (io_bind m g)"
  unfolding fault_blind_def
proof (intro allI impI)
  fix w x w'
  assume r: "io_bind m g w = (Inr x, w')"
  obtain y w1 where m: "m w = (Inr y, w1)" and g: "g y w1 = (Inr x, w')"
    using r by (auto simp: io_bind_def split: prod.splits sum.splits)
  from fault_blindD [OF assms(1) m] fault_blindD [OF assms(2) g]
  show "io_bind m g (calm w) = (Inr x, calm w')"
    by (simp add: io_bind_def)
qed

lemma fb_if [intro!]: "fault_blind a \<Longrightarrow> fault_blind b \<Longrightarrow> fault_blind (if c then a else b)"
  by simp

lemma fb_option [intro!]:
  "fault_blind a \<Longrightarrow> (\<And>x. fault_blind (b x)) \<Longrightarrow> fault_blind (case v of None \<Rightarrow> a | Some x \<Rightarrow> b x)"
  by (cases v) simp_all

lemma fb_api:
  assumes "\<And>w bs. g (w\<lparr>faults := bs\<rparr>) = (fst (g w), (snd (g w))\<lparr>faults := bs\<rparr>)"
  shows "fault_blind (api_call g)"
  unfolding fault_blind_def
proof (intro allI impI)
  fix w x w'
  assume r: "api_call g w = (Inr x, w')"
  have c: "g (calm w) = (fst (g w), calm (snd (g w)))"
    using assms [of "[]" w] by (simp add: calm_def)
  show "api_call g (calm w) = (Inr x, calm w')"
  proof (cases "faults w")
    case Nil
    with r show ?thesis by (auto simp: api_call_def c split: prod.splits)
  next
    case (Cons b bs)
    with r have "\<not> b" and "g (w\<lparr>faults := bs\<rparr>) = (x, w')"
      by (auto simp: api_call_def split: prod.splits if_splits)
    with assms [of bs w] have "x = fst (g w)" "w' = (snd (g w))\<lparr>faults := bs\<rparr>" by auto
    then show ?thesis by (simp add: api_call_def c)
  qed
qed

lemma put_sheet_faults: "put_sheet t s (w\<lparr>faults := bs\<rparr>) = (put_sheet t s w)\<lparr>faults := bs\<rparr>"
  by (cases t) simp_all

lemma fb_prims [intro!, simp]:
  "fault_blind (get_all_values t)" "fault_blind (row_values t i)" "fault_blind (read_all t)"
  "fault_blind (append_rows t rs)" "fault_blind (append_row t r)"
  "fault_blind (update_range t i c vs)" "fault_blind (update_cell t i c v)"
  "fault_blind (delete_rows t i)" "fault_blind (clear t)"
  by (auto simp: get_all_values_def row_values_def read_all_def append_rows_def append_row_def
      update_range_def update_cell_def delete_rows_def clear_def put_sheet_faults intro!: fb_api)

lemma fb_env [intro!, simp]:
  "fault_blind utcnow" "fault_blind (sleep d)" "fault_blind uuid4" "fault_blind session_blocks"
  by (auto simp: fault_blind_def utcnow_def sleep_def uuid4_def session_blocks_def calm_def)

lemma fb_helpers [intro!, simp]:
  "fault_blind (lock_row_index k)" "fault_blind (find_rows_for_date t k)"
  "fault_blind (get_version k)" "fault_blind (set_version k v)"
  by (auto simp: lock_row_index_def find_rows_for_date_def get_version_def set_version_def
      split: option.splits)

lemma fb_acquire_loop [intro!, simp]: "fault_blind (acquire_loop dt k u ttl b tok atts)"
  by (induction atts) (auto simp: Let_def)

lemma fb_acquire_lock [intro!, simp]: "fault_blind (acquire_lock dt k u ttl n b)"
  by (auto simp: acquire_lock_def)

lemma fb_release_lock [intro!, simp]: "fault_blind (release_lock dt k tok)"
  by (auto simp: release_lock_def)

lemma fb_delete_each [intro!, simp]: "fault_blind (delete_each rs)"
  by (induction rs) auto

lemma fb_load_rows [intro!, simp]: "fault_blind (load_rows rs d)"
  by (induction rs arbitrary: d) auto

lemma fb_load_date [intro!, simp]: "fault_blind (load_date k)"
  by (auto simp: load_date_def)

lemma fb_save_steps [intro!, simp]: "fault_blind (save_steps dt k d v)"
  by (auto simp: save_steps_def Let_def)

subsection \<open>Scanning a sheet\<close>

lemma version_row_first: "version_row s k = first_row (vers_row k) s"
  by (simp add: version_row_def first_row_def vers_row_def)

lemma lock_row_first: "lock_row s k = map_option fst (first_row (key_row k) s)"
  by (simp add: lock_row_def first_row_def key_row_def)

lemma first_row_Some:
  "first_row Q s = Some (idx, row) \<longleftrightarrow>
     (\<exists>i. idx = Suc i \<and> 0 < i \<and> i < length s \<and> row = s ! i \<and> Q (s ! i)
          \<and> (\<forall>j. 0 < j \<and> j < i \<longrightarrow> \<not> Q (s ! j)))"
proof
  assume "first_row Q s = Some (idx, row)"
  then obtain i where i: "i < length s" "idx \<noteq> 1 \<and> Q row" "(idx, row) = (Suc i, s ! i)"
    and m: "\<forall>j<i. \<not> (case enumerate 1 s ! j of (idx, row) \<Rightarrow> idx \<noteq> 1 \<and> Q row)"
    by (auto simp: first_row_def find_Some_iff nth_enumerate_eq)
  have "\<forall>j. 0 < j \<and> j < i \<longrightarrow> \<not> Q (s ! j)"
  proof (intro allI impI)
    fix j assume j: "0 < j \<and> j < i"
    with m i(1) have "\<not> (case enumerate 1 s ! j of (idx, row) \<Rightarrow> idx \<noteq> 1 \<and> Q row)" by simp
    with j i(1) show "\<not> Q (s ! j)" by (simp add: nth_enumerate_eq)
  qed
  with i show "\<exists>i. idx = Suc i \<and> 0 < i \<and> i < length s \<and> row = s ! i \<and> Q (s ! i)
          \<and> (\<forall>j. 0 < j \<and> j < i \<longrightarrow> \<not> Q (s ! j))"
    by auto
next
  assume "\<exists>i. idx = Suc i \<and> 0 < i \<and> i < length s \<and> row = s ! i \<and> Q (s ! i)
          \<and> (\<forall>j. 0 < j \<and> j < i \<longrightarrow> \<not> Q (s ! j))"
  then obtain i where i: "idx = Suc i" "0 < i" "i < length s" "row = s ! i" "Q (s ! i)"
    and m: "\<forall>j. 0 < j \<and> j < i \<longrightarrow> \<not> Q (s ! j)" by blast
  have "\<forall>j<i. \<not> (case enumerate 1 s ! j of (idx, row) \<Rightarrow> idx \<noteq> 1 \<and> Q row)"
  proof (intro allI impI)
    fix j assume "j < i"
    moreover from i(2) i(3) have "0 < length s" by arith
    ultimately show "\<not> (case enumerate 1 s ! j of (idx, row) \<Rightarrow> idx \<noteq> 1 \<and> Q row)"
      using i(3) m by (cases "j = 0") (simp_all add: nth_enumerate_eq)
  qed
  with i show "first_row Q s = Some (idx, row)"
    unfolding first_row_def find_Some_iff
    by (intro exI [of _ i]) (simp add: nth_enumerate_eq)
qed

lemma first_row_None:
  "first_row Q s = None \<longleftrightarrow> (\<forall>i. 0 < i \<and> i < length s \<longrightarrow> \<not> Q (s ! i))"
proof -
  have "first_row Q s = None \<longleftrightarrow> (\<forall>p \<in> set (enumerate 1 s). \<not> (fst p \<noteq> 1 \<and> Q (snd p)))"
    unfolding first_row_def find_None_iff by (simp only: split_beta) blast
  also have "\<dots> \<longleftrightarrow> (\<forall>i. 0 < i \<and> i < length s \<longrightarrow> \<not> Q (s ! i))"
  proof
    assume a: "\<forall>p \<in> set (enumerate 1 s). \<not> (fst p \<noteq> 1 \<and> Q (snd p))"
    show "\<forall>i. 0 < i \<and> i < length s \<longrightarrow> \<not> Q (s ! i)"
    proof (intro allI impI)
      fix i assume i: "0 < i \<and> i < length s"
      then have "(Suc i, s ! i) \<in> set (enumerate 1 s)" by (simp add: in_set_enumerate_eq)
      with a i show "\<not> Q (s ! i)" by fastforce
    qed
  next
    assume a: "\<forall>i. 0 < i \<and> i < length s \<longrightarrow> \<not> Q (s ! i)"
    show "\<forall>p \<in> set (enumerate 1 s). \<not> (fst p \<noteq> 1 \<and> Q (snd p))"
    proof
      fix p assume "p \<in> set (enumerate 1 s)"
      then have p: "1 \<le> fst p" "fst p < length s + 1" "s ! (fst p - 1) = snd p"
        by (simp_all add: in_set_enumerate_eq)
      show "\<not> (fst p \<noteq> 1 \<and> Q (snd p))"
      proof (cases "fst p = 1")
        case False
        with p have "0 < fst p - 1 \<and> fst p - 1 < length s" by arith
        with a p(3) show ?thesis by metis
      qed simp
    qed
  qed
  finally show ?thesis .
qed

subsection \<open>Writing cells\<close>

lemma set_range_in:
  "0 < i \<Longrightarrow> i \<le> length s \<Longrightarrow> set_range i c vs s = s[i - 1 := set_cells c vs (s ! (i - 1))]"
  by (simp add: set_range_def)

lemma set_cells_2: "length r \<ge> 2 \<Longrightarrow> set_cells 2 [v] r = r ! 0 # v # drop 2 r"
  by (cases r) (auto simp: set_cells_def)

lemma set_cells_BD: "length r \<ge> 1 \<Longrightarrow> set_cells 2 [a, b, c] r = r ! 0 # a # b # c # drop 4 r"
  by (cases r) (auto simp: set_cells_def numeral_3_eq_3)

lemma vers_row_set_cells: "vers_row k r \<Longrightarrow> vers_row k (set_cells 2 [v] r)"
  by (simp add: vers_row_def set_cells_2)

lemma vers_row_set_cells_other: "length r \<ge> 2 \<Longrightarrow> vers_row k' (set_cells 2 [v] r) = vers_row k' r"
  by (simp add: vers_row_def set_cells_2)

lemma key_row_set_cells: "length r \<ge> 1 \<Longrightarrow> key_row k' (set_cells 2 [a, b, c] r) = key_row k' r"
  by (simp add: key_row_def set_cells_BD)

text \<open>Replacing the row that a scan found by a row that passes the same tests.\<close>

lemma first_row_update:
  assumes f: "first_row Q s = Some (idx, row)" and q: "Q r'"
  shows "first_row Q (s[idx - 1 := r']) = Some (idx, r')"
proof -
  from f obtain i where i: "idx = Suc i" "0 < i" "i < length s"
    and m: "\<forall>j. 0 < j \<and> j < i \<longrightarrow> \<not> Q (s ! j)"
    by (auto simp: first_row_Some)
  show ?thesis
    unfolding first_row_Some using i m q by (intro exI [of _ i]) simp
qed

lemma first_row_update_other:
  assumes i: "0 < i" "i < length s" and q: "Q r' = Q (s ! i)"
  shows "map_option fst (first_row Q (s[i := r'])) = map_option fst (first_row Q s)"
    and "\<And>idx row. first_row Q s = Some (idx, row) \<Longrightarrow> idx \<noteq> Suc i \<Longrightarrow> first_row Q (s[i := r']) = Some (idx, row)"
proof -
  have same: "Q (s[i := r'] ! j) = Q (s ! j)" if "j < length s" for j
    using that q by (cases "j = i") simp_all
  show "map_option fst (first_row Q (s[i := r'])) = map_option fst (first_row Q s)"
  proof (cases "first_row Q s")
    case None
    then have "first_row Q (s[i := r']) = None"
      using same by (simp add: first_row_None)
    with None show ?thesis by simp
  next
    case (Some p)
    obtain idx row where p: "p = (idx, row)" by (cases p)
    with Some obtain n where n: "idx = Suc n" "0 < n" "n < length s" "Q (s ! n)"
      and m: "\<forall>j. 0 < j \<and> j < n \<longrightarrow> \<not> Q (s ! j)"
      by (auto simp: first_row_Some)
    have "first_row Q (s[i := r']) = Some (idx, s[i := r'] ! n)"
      unfolding first_row_Some using n m same by (intro exI [of _ n]) simp
    with Some p show ?thesis by simp
  qed
  fix idx row
  assume f: "first_row Q s = Some (idx, row)" and ne: "idx \<noteq> Suc i"
  then obtain n where n: "idx = Suc n" "0 < n" "n < length s" "Q (s ! n)" "row = s ! n"
      and m: "\<forall>j. 0 < j \<and> j < n \<longrightarrow> \<not> Q (s ! j)"
    by (auto simp: first_row_Some)
  show "first_row Q (s[i := r']) = Some (idx, row)"
    unfolding first_row_Some using n m same ne by (intro exI [of _ n]) simp
qed

lemma first_row_append:
  "first_row Q s = Some p \<Longrightarrow> first_row Q (s @ t) = Some p"
proof -
  assume a: "first_row Q s = Some p"
  obtain idx row where p: "p = (idx, row)" by (cases p)
  with a obtain n where n: "idx = Suc n" "0 < n" "n < length s" "Q (s ! n)" "row = s ! n"
      and m: "\<forall>j. 0 < j \<and> j < n \<longrightarrow> \<not> Q (s ! j)"
    by (auto simp: first_row_Some)
  show ?thesis
    unfolding p first_row_Some using n m by (intro exI [of _ n]) (simp add: nth_append)
qed

lemma first_row_append_None:
  assumes "first_row Q s = None" and "s \<noteq> []"
  shows "first_row Q (s @ [r]) = (if Q r then Some (Suc (length s), r) else None)"
proof (cases "Q r")
  case True
  from assms have m: "\<forall>j. 0 < j \<and> j < length s \<longrightarrow> \<not> Q (s ! j)" by (simp add: first_row_None)
  from assms(2) have "0 < length s" by simp
  with True m have "first_row Q (s @ [r]) = Some (Suc (length s), r)"
    unfolding first_row_Some by (intro exI [of _ "length s"]) (simp add: nth_append)
  with True show ?thesis by simp
next
  case False
  from assms have m: "\<forall>j. 0 < j \<and> j < length s \<longrightarrow> \<not> Q (s ! j)" by (simp add: first_row_None)
  with False have "first_row Q (s @ [r]) = None"
    unfolding first_row_None by (auto simp: nth_append less_Suc_eq)
  with False show ?thesis by simp
qed

subsection \<open>The stored version\<close>

lemma stored_version_put:
  assumes "s \<noteq> []"
  shows "stored_version (put_version s k v) k = v"
proof (cases "version_row s k")
  case None
  then have "version_row (s @ [[k, str_int v]]) k = Some (Suc (length s), [k, str_int v])"
    using assms by (simp add: version_row_first first_row_append_None vers_row_def)
  with None show ?thesis by (simp add: stored_version_def put_version_def py_int_str_int)
next
  case (Some p)
  obtain idx row where p: "p = (idx, row)" by (cases p)
  with Some have f: "first_row (vers_row k) s = Some (idx, row)" by (simp add: version_row_first)
  then have b: "0 < idx" "idx \<le> length s" "row = s ! (idx - 1)" "vers_row k row"
    by (auto simp: first_row_Some)
  have "first_row (vers_row k) (s[idx - 1 := set_cells 2 [str_int v] row]) =
        Some (idx, set_cells 2 [str_int v] row)"
    using f b(4) by (intro first_row_update) (simp_all add: vers_row_set_cells)
  moreover have "set_cells 2 [str_int v] row ! 1 = str_int v"
    using b(4) by (simp add: vers_row_def set_cells_2)
  ultimately show ?thesis using Some p b
    by (simp add: stored_version_def put_version_def set_range_in version_row_first py_int_str_int)
qed

lemma stored_version_put_other:
  assumes "k' \<noteq> k"
  shows "stored_version (put_version s k v) k' = stored_version s k'"
proof (cases "version_row s k")
  case None
  show ?thesis
  proof (cases "first_row (vers_row k') s")
    case N: None
    have "first_row (vers_row k') (s @ [[k, str_int v]]) = None"
    proof (cases "s = []")
      case True
      then show ?thesis by (simp add: first_row_def)
    next
      case False
      with N assms show ?thesis by (simp add: first_row_append_None vers_row_def)
    qed
    with None N show ?thesis by (simp add: stored_version_def put_version_def version_row_first)
  next
    case (Some p)
    then have "first_row (vers_row k') (s @ [[k, str_int v]]) = Some p" by (rule first_row_append)
    with None Some show ?thesis by (simp add: stored_version_def put_version_def version_row_first)
  qed
next
  case (Some p)
  obtain idx row where p: "p = (idx, row)" by (cases p)
  with Some have f: "first_row (vers_row k) s = Some (idx, row)" by (simp add: version_row_first)
  then obtain i where i: "idx = Suc i" "0 < i" "i < length s" "row = s ! i" "vers_row k (s ! i)"
    by (auto simp: first_row_Some)
  let ?r = "set_cells 2 [str_int v] (s ! i)"
  from i(5) have "length (s ! i) \<ge> 2" by (simp add: vers_row_def)
  then have q: "vers_row k' ?r = vers_row k' (s ! i)"
    by (rule vers_row_set_cells_other)
  have pv: "put_version s k v = s[i := ?r]"
    using Some p i by (simp add: put_version_def set_range_in)
  show ?thesis
  proof (cases "first_row (vers_row k') s")
    case N: None
    with first_row_update_other(1) [OF i(2,3) q] have "first_row (vers_row k') (s[i := ?r]) = None"
      by simp
    with N pv show ?thesis by (simp add: stored_version_def version_row_first)
  next
    case S: (Some p')
    obtain idx' row' where p': "p' = (idx', row')" by (cases p')
    have "idx' \<noteq> Suc i"
    proof
      assume "idx' = Suc i"
      with S p' have "vers_row k' (s ! i)" by (auto simp: first_row_Some)
      with i(5) assms show False by (simp add: vers_row_def)
    qed
    with first_row_update_other(2) [OF i(2,3) q] S p'
    have "first_row (vers_row k') (s[i := ?r]) = Some (idx', row')" by simp
    with S p' pv show ?thesis by (simp add: stored_version_def version_row_first)
  qed
qed

subsection \<open>Runs without transport faults\<close>

lemma prims_ok:
  assumes "faults w = []"
  shows "get_all_values t w = (Inr (sheet_of t w), w)"
    and "read_all t w = (Inr (sheet_of t w), w)"
    and "row_values t i w = (Inr (nth_row (sheet_of t w) i), w)"
    and "append_rows t rs w = (Inr (), put_sheet t (sheet_of t w @ rs) w)"
    and "append_row t r w = (Inr (), put_sheet t (sheet_of t w @ [r]) w)"
    and "update_range t i c vs w = (Inr (), put_sheet t (set_range i c vs (sheet_of t w)) w)"
    and "update_cell t i c v w = (Inr (), put_sheet t (set_range i c [v] (sheet_of t w)) w)"
    and "delete_rows t i w = (Inr (), put_sheet t (remove_row i (sheet_of t w)) w)"
    and "clear t w = (Inr (), put_sheet t [] w)"
  using assms
  by (simp_all add: get_all_values_def read_all_def row_values_def append_rows_def append_row_def
      update_range_def update_cell_def delete_rows_def clear_def api_call_ok)

lemma get_version_ok:
  "faults w = [] \<Longrightarrow> get_version k w = (Inr (stored_version (ws_vers w) k), w)"
  by (simp add: get_version_def io_bind_def io_return_def prims_ok)

lemma set_version_ok:
  "faults w = [] \<Longrightarrow> set_version k v w = (Inr (), w\<lparr>ws_vers := put_version (ws_vers w) k v\<rparr>)"
  by (simp add: set_version_def put_version_def io_bind_def prims_ok split: option.splits)

lemma lock_row_index_ok:
  "faults w = [] \<Longrightarrow> lock_row_index k w = (Inr (lock_row (ws_lock w) k), w)"
  by (simp add: lock_row_index_def io_bind_def io_return_def prims_ok)

lemma find_rows_ok:
  "faults w = [] \<Longrightarrow> find_rows_for_date t k w = (Inr (rows_for_date (sheet_of t w) k), w)"
  by (simp add: find_rows_for_date_def io_bind_def io_return_def prims_ok)

lemma delete_each_ok:
  "faults w = [] \<Longrightarrow> delete_each rs w = (Inr (), w\<lparr>ws_resv := fold remove_row rs (ws_resv w)\<rparr>)"
  by (induction rs arbitrary: w) (simp_all add: io_return_def io_bind_def prims_ok)

subsection \<open>Deleting the rows of a key\<close>

lemma rows_for_date_snoc:
  "rows_for_date (xs @ [x]) k =
     rows_for_date xs k @ (if xs \<noteq> [] \<and> key_row k x then [Suc (length xs)] else [])"
  by (auto simp: rows_for_date_def enumerate_append_eq key_row_def Suc_le_eq)

lemma rows_for_date_bound: "i \<in> set (rows_for_date xs k) \<Longrightarrow> 2 \<le> i \<and> i \<le> length xs"
  by (auto simp: rows_for_date_def in_set_enumerate_eq)

lemma rows_for_date_sorted: "sorted_wrt (<) (rows_for_date xs k)"
proof -
  have "sorted (rows_for_date xs k)"
    unfolding rows_for_date_def by (rule sorted_filter) (rule sorted_enumerate)
  moreover have "distinct (rows_for_date xs k)"
    unfolding rows_for_date_def by (rule distinct_map_filter) simp
  ultimately show ?thesis by (simp add: strict_sorted_iff)
qed

lemma sort_rows_for_date: "rev (sort (rows_for_date xs k)) = rev (rows_for_date xs k)"
  using rows_for_date_sorted [of xs k] by (simp add: strict_sorted_iff sorted_sort_id)

lemma remove_row_append:
  "0 < i \<Longrightarrow> i \<le> length xs \<Longrightarrow> remove_row i (xs @ ys) = remove_row i xs @ ys"
  by (simp add: remove_row_def)

lemma fold_remove_append:
  "sorted_wrt (>) is \<Longrightarrow> \<forall>i \<in> set is. 0 < i \<and> i \<le> length xs \<Longrightarrow>
   fold remove_row is (xs @ ys) = fold remove_row is xs @ ys"
proof (induction "is" arbitrary: xs)
  case Nil
  then show ?case by simp
next
  case (Cons i "is")
  have "\<forall>j \<in> set is. 0 < j \<and> j \<le> length (remove_row i xs)"
  proof
    fix j assume j: "j \<in> set is"
    with Cons.prems have "j < i" "0 < j" "i \<le> length xs" by auto
    then show "0 < j \<and> j \<le> length (remove_row i xs)" by (simp add: remove_row_def)
  qed
  with Cons show ?case by (simp add: remove_row_append)
qed

lemma purge_snoc:
  "purge k (xs @ [x]) = (if xs = [] then [x] else purge k xs @ (if key_row k x then [] else [x]))"
  by (cases xs) (simp_all add: purge_def)

lemma fold_remove_rows: "fold remove_row (rev (rows_for_date s k)) s = purge k s"
proof (induction s rule: rev_induct)
  case Nil
  then show ?case by (simp add: rows_for_date_def purge_def)
next
  case (snoc x xs)
  have b: "\<forall>i \<in> set (rev (rows_for_date xs k)). 0 < i \<and> i \<le> length xs"
    using rows_for_date_bound [of _ xs k] by fastforce
  have "sorted_wrt (>) (rev (rows_for_date xs k))"
    using rows_for_date_sorted [of xs k] by (simp add: sorted_wrt_rev)
  then have low: "fold remove_row (rev (rows_for_date xs k)) (xs @ [x]) = purge k xs @ [x]"
    using b snoc by (simp add: fold_remove_append)
  show ?case
  proof (cases "xs \<noteq> [] \<and> key_row k x")
    case True
    then show ?thesis using snoc
      by (simp add: rows_for_date_snoc purge_snoc remove_row_def)
  next
    case False
    show ?thesis
    proof (cases "xs = []")
      case True
      then show ?thesis by (simp add: rows_for_date_def purge_def)
    next
      case ne: False
      with False have "\<not> key_row k x" by simp
      with ne low show ?thesis by (simp add: rows_for_date_snoc purge_snoc)
    qed
  qed
qed

lemma save_steps_ok:
  assumes "faults w = []"
  shows "save_steps dt k d v w =
     (if stored_version (ws_vers w) k \<noteq> v then (Inr (False, ''VERSION_CONFLICT''), w)
      else (Inr (True, []),
            w\<lparr>ws_resv := purge k (ws_resv w) @ new_rows dt k d (clock w),
              ws_vers := put_version (ws_vers w) k (v + 1)\<rparr>))"
  using assms
  by (simp add: save_steps_def io_bind_def io_return_def get_version_ok find_rows_ok delete_each_ok
      sort_rows_for_date fold_remove_rows utcnow_def prims_ok set_version_ok Let_def)

subsection \<open>What the operations return\<close>

lemma yieldsD: "yields P m \<Longrightarrow> m w = (Inr x, w') \<Longrightarrow> P x"
  by (auto simp: yields_def)

lemma yields_return [intro!]: "P x \<Longrightarrow> yields P (io_return x)"
  by (simp add: yields_def io_return_def)

lemma yields_bind [intro!]: "(\<And>y. yields P (g y)) \<Longrightarrow> yields P (io_bind m g)"
  by (auto simp: yields_def io_bind_def split: prod.splits sum.splits)

lemma yields_if [intro!]: "yields P a \<Longrightarrow> yields P b \<Longrightarrow> yields P (if c then a else b)"
  by simp

lemma yields_option [intro!]:
  "yields P a \<Longrightarrow> (\<And>x. yields P (b x)) \<Longrightarrow> yields P (case v of None \<Rightarrow> a | Some x \<Rightarrow> b x)"
  by (cases v) simp_all

lemma yields_acquire_loop:
  "yields (\<lambda>r. r = None \<or> r = Some tok) (acquire_loop dt k u ttl b tok atts)"
  by (induction atts) (auto simp: Let_def)

lemma acquire_lock_token:
  assumes "acquire_lock dt k u ttl n b w = (Inr (Some t), w')"
  shows "t = str_uuid (shd (uuid_src w))"
proof -
  from assms obtain w1 where
    "acquire_loop dt k u ttl b (str_uuid (shd (uuid_src w))) [0..<n] w1 = (Inr (Some t), w')"
    by (auto simp: acquire_lock_def io_bind_def uuid4_def)
  from yieldsD [OF yields_acquire_loop this] show ?thesis by simp
qed

lemma calm_eqD:
  assumes "calm w' = calm w"
  shows "ws_resv w' = ws_resv w" "ws_vers w' = ws_vers w" "ws_lock w' = ws_lock w"
    "clock w' = clock w" "blocks w' = blocks w" "uuid_src w' = uuid_src w"
  using assms calm_simps by metis+

lemma save_steps_Inr:
  assumes "save_steps dt k d v w = (Inr res, w')"
  shows "(stored_version (ws_vers w) k \<noteq> v \<and> res = (False, ''VERSION_CONFLICT'') \<and> calm w' = calm w)
       \<or> (stored_version (ws_vers w) k = v \<and> res = (True, []) \<and>
          calm w' = (calm w)\<lparr>ws_resv := purge k (ws_resv w) @ new_rows dt k d (clock w),
                             ws_vers := put_version (ws_vers w) k (v + 1)\<rparr>)"
proof -
  have "save_steps dt k d v (calm w) = (Inr res, calm w')"
    using assms by (rule fault_blindD [OF fb_save_steps])
  then show ?thesis
    by (simp add: save_steps_ok split: if_splits)
qed

text \<open>The shape of a run of \<open>save_date\<close>.\<close>

lemma save_date_no_lock: "save_date dt k d v u False ttl w = save_steps dt k d v w"
  by (simp add: save_date_def save_try_def split: prod.splits)

lemma save_date_lock:
  "save_date dt k d v u True ttl w =
     (case acquire_lock dt k u ttl 5 500000 w of
        (Inl e, w1) \<Rightarrow> (Inl e, w1)
      | (Inr None, w1) \<Rightarrow> (Inr (False, ''LOCK_FAIL''), w1)
      | (Inr (Some tok), w1) \<Rightarrow>
          (case save_steps dt k d v w1 of
             (r, w2) \<Rightarrow>
               (case release_lock dt k tok w2 of
                  (Inl e, w3) \<Rightarrow> (Inl e, w3)
                | (Inr x, w3) \<Rightarrow> (r, w3))))"
proof -
  obtain ra w1 where a: "acquire_lock dt k u ttl 5 500000 w = (ra, w1)"
    by (cases "acquire_lock dt k u ttl 5 500000 w")
  show ?thesis
  proof (cases ra)
    case (Inl e)
    with a show ?thesis by (simp add: save_date_def save_try_def)
  next
    case (Inr token)
    show ?thesis
    proof (cases token)
      case None
      with a Inr show ?thesis by (simp add: save_date_def save_try_def)
    next
      case (Some tok)
      with a Inr have "tok \<noteq> []" using acquire_lock_token str_uuid_ne by metis
      with a Inr Some show ?thesis
        by (simp add: save_date_def save_try_def split: prod.splits)
    qed
  qed
qed

lemma save_date_Inr:
  assumes "save_date dt k d v u use_lock ttl w = (Inr res, w')"
    and "res \<noteq> (False, ''LOCK_FAIL'')"
  shows "\<exists>w1 w2. save_steps dt k d v w1 = (Inr res, w2)
         \<and> ws_resv w1 = ws_resv w \<and> ws_vers w1 = ws_vers w
         \<and> ws_resv w' = ws_resv w2 \<and> ws_vers w' = ws_vers w2"
proof (cases use_lock)
  case False
  with assms show ?thesis by (auto simp: save_date_no_lock)
next
  case True
  with assms obtain tok w1 w2 x where
    a: "acquire_lock dt k u ttl 5 500000 w = (Inr (Some tok), w1)" and
    s: "save_steps dt k d v w1 = (Inr res, w2)" and
    r: "release_lock dt k tok w2 = (Inr x, w')"
    by (auto simp: save_date_lock split: prod.splits sum.splits option.splits)
  from keepsD [OF keeps_acquire_lock a, of Resv] keepsD [OF keeps_acquire_lock a, of Vers]
    keepsD [OF keeps_release_lock r, of Resv] keepsD [OF keeps_release_lock r, of Vers] s
  show ?thesis by auto
qed

lemma VERSION_CONFLICT_ne: "(False, ''VERSION_CONFLICT'') \<noteq> (True, [])" "(False, ''VERSION_CONFLICT'') \<noteq> (False, ''LOCK_FAIL'')"
  by simp_all

lemma fresh_store_simps [simp]:
  "faults fresh_store = []" "clock fresh_store = 0"
  "ws_resv fresh_store = [HEADERS]" "ws_vers fresh_store = [VERS_HEADERS]"
  "ws_lock fresh_store = [LOCK_HEADERS]" "blocks fresh_store = [''LUNCHA'', ''LUNCHB'', ''AFTER'']"
  "uuid_src fresh_store = sconst 0"
  by (simp_all add: fresh_store_def)

lemma stored_version_fresh: "stored_version [VERS_HEADERS] k = 0"
  by (simp add: stored_version_def version_row_def)

subsection \<open>Acquiring the lock\<close>

declare acquire_loop.simps [simp del]

lemma waited_nonneg: "0 \<le> b \<Longrightarrow> 0 \<le> waited b atts"
proof -
  have "0 \<le> sum_list (map (\<lambda>a. int a + 1) atts)" by (induction atts) simp_all
  then show "0 \<le> b \<Longrightarrow> 0 \<le> waited b atts" by (simp add: waited_def)
qed

lemma strip_nil [simp]: "strip [] = []"
  by (simp add: strip_def)

lemma io_bind_Inr: "m w = (Inr x, w') \<Longrightarrow> io_bind m f w = f x w'"
  by (simp add: io_bind_def)

lemma bind_ok:
  assumes "faults w = []"
  shows "io_bind (lock_row_index k) f w = f (lock_row (ws_lock w) k) w"
    and "io_bind (row_values t i) g w = g (nth_row (sheet_of t w) i) w"
    and "io_bind (append_row t r) h w = h () (put_sheet t (sheet_of t w @ [r]) w)"
    and "io_bind (update_range t i c vs) h w = h () (put_sheet t (set_range i c vs (sheet_of t w)) w)"
  using assms by (simp_all add: io_bind_def lock_row_index_ok prims_ok)

lemma io_bind_utcnow: "io_bind utcnow f w = f (clock w) w"
  by (simp add: io_bind_def utcnow_def)

lemma blocked_iff: "blocked dt row now tok \<longleftrightarrow> held_by_other dt row now tok"
  by (auto simp: blocked_def lock_expired_def held_by_other_def Let_def split: option.splits)

lemma held_by_other_mono: "held_by_other dt row t tok \<Longrightarrow> t' \<le> t \<Longrightarrow> held_by_other dt row t' tok"
  by (auto simp: held_by_other_def split: option.splits)

lemma lock_record_Some:
  "lock_record s k = Some row \<longleftrightarrow> (\<exists>i. first_row (key_row k) s = Some (i, row))"
proof
  assume "lock_record s k = Some row"
  then obtain i p where p: "first_row (key_row k) s = Some p" "fst p = i" "row = nth_row s i"
    by (auto simp: lock_record_def lock_row_first split: option.splits)
  then obtain r where "p = (i, r)" by (cases p) auto
  with p have "first_row (key_row k) s = Some (i, row)"
    by (auto simp: first_row_Some nth_row_def)
  then show "\<exists>i. first_row (key_row k) s = Some (i, row)" ..
next
  assume "\<exists>i. first_row (key_row k) s = Some (i, row)"
  then obtain i where f: "first_row (key_row k) s = Some (i, row)" ..
  then have "nth_row s i = row" by (auto simp: first_row_Some nth_row_def)
  with f show "lock_record s k = Some row" by (simp add: lock_record_def lock_row_first)
qed

lemma lock_record_None: "lock_record s k = None \<longleftrightarrow> first_row (key_row k) s = None"
  by (auto simp: lock_record_def lock_row_first split: option.splits)

lemma lock_record_key: "lock_record s k = Some row \<Longrightarrow> length row \<ge> 1 \<and> row ! 0 = k"
  by (auto simp: lock_record_Some first_row_Some key_row_def)

lemma lock_record_grab:
  assumes "s \<noteq> []"
  shows "lock_record (grab s k [a, b, c]) k =
     Some (k # a # b # c # (case lock_record s k of None \<Rightarrow> [] | Some r \<Rightarrow> drop 4 r))"
proof (cases "first_row (key_row k) s")
  case None
  then have "lock_row s k = None" by (simp add: lock_row_first)
  moreover have "first_row (key_row k) (s @ [[k, a, b, c]]) = Some (Suc (length s), [k, a, b, c])"
    using None assms by (simp add: first_row_append_None key_row_def)
  ultimately show ?thesis using None
    by (simp add: grab_def lock_record_Some lock_record_None [THEN iffD2])
next
  case (Some p)
  obtain i row where p: "p = (i, row)" by (cases p)
  with Some have f: "first_row (key_row k) s = Some (i, row)" by simp
  then have b: "0 < i" "i \<le> length s" "row = s ! (i - 1)" "key_row k row"
    by (auto simp: first_row_Some)
  let ?r = "set_cells 2 [a, b, c] row"
  from b(4) have r: "?r = k # a # b # c # drop 4 row" by (simp add: set_cells_BD key_row_def)
  have "first_row (key_row k) (s[i - 1 := ?r]) = Some (i, ?r)"
    using f by (rule first_row_update) (simp add: r key_row_def)
  then have "lock_record (s[i - 1 := ?r]) k = Some ?r" using lock_record_Some by blast
  moreover have "lock_row s k = Some i" using f by (simp add: lock_row_first)
  then have "grab s k [a, b, c] = s[i - 1 := ?r]" using b by (simp add: grab_def set_range_in)
  moreover have "lock_record s k = Some row" using f lock_record_Some by blast
  ultimately show ?thesis using r by simp
qed

lemma recheck_ok:
  assumes "faults w = []"
  shows "io_bind (lock_row_index k) (\<lambda>row_idx2.
           io_bind (case row_idx2 of None \<Rightarrow> io_return [] | Some i \<Rightarrow> row_values Lock i)
             (\<lambda>row2. if length row2 \<ge> 4 \<and> row2 ! 0 = k \<and> row2 ! Suc 0 = tok
                      then io_return (Some tok) else retry)) w =
         (case lock_record (ws_lock w) k of
            None \<Rightarrow> retry w
          | Some row2 \<Rightarrow> if length row2 \<ge> 4 \<and> row2 ! 1 = tok then (Inr (Some tok), w) else retry w)"
proof (cases "lock_record (ws_lock w) k")
  case None
  then have "lock_row (ws_lock w) k = None" by (simp add: lock_record_def split: option.splits)
  with assms None show ?thesis
    by (simp add: io_bind_def io_return_def lock_row_index_ok)
next
  case (Some row2)
  then obtain i where "lock_row (ws_lock w) k = Some i" "nth_row (ws_lock w) i = row2"
    by (auto simp: lock_record_def split: option.splits)
  with assms Some lock_record_key [OF Some] show ?thesis
    by (simp add: io_bind_def io_return_def lock_row_index_ok prims_ok)
qed

lemma acquire_loop_step:
  assumes "faults w = []"
  shows "acquire_loop dt k u ttl b tok (a # rest) w =
     (let retry = io_bind (sleep (b * (int a + 1))) (\<lambda>_. acquire_loop dt k u ttl b tok rest);
          w1 = w\<lparr>ws_lock := grab (ws_lock w) k [tok, u, isoformat dt (clock w + ttl * 1000000) @ ''Z'']\<rparr>
      in if (case lock_record (ws_lock w) k of None \<Rightarrow> False
             | Some row \<Rightarrow> held_by_other dt row (clock w) tok)
         then retry w
         else (case lock_record (ws_lock w1) k of
                 None \<Rightarrow> retry w1
               | Some row2 \<Rightarrow> if length row2 \<ge> 4 \<and> row2 ! 1 = tok then (Inr (Some tok), w1)
                              else retry w1))"
proof (cases "lock_row (ws_lock w) k")
  case None
  then have n: "lock_record (ws_lock w) k = None" by (simp add: lock_record_def)
  have f1: "faults (w\<lparr>ws_lock := ws_lock w @ [[k, tok, u, isoformat dt (clock w + ttl * 1000000) @ ''Z'']]\<rparr>) = []"
    using assms by simp
  show ?thesis
    using None n
    by (simp add: acquire_loop.simps bind_ok [OF assms] io_bind_utcnow Let_def grab_def
        recheck_ok [OF f1])
next
  case (Some i)
  then have r: "lock_record (ws_lock w) k = Some (nth_row (ws_lock w) i)" by (simp add: lock_record_def)
  have f1: "faults (w\<lparr>ws_lock := set_range i 2 [tok, u, isoformat dt (clock w + ttl * 1000000) @ ''Z''] (ws_lock w)\<rparr>) = []"
    using assms by simp
  show ?thesis
    using Some r
    by (simp add: acquire_loop.simps bind_ok [OF assms] io_bind_utcnow Let_def grab_def
        recheck_ok [OF f1] blocked_iff)
qed


lemma bind_sleep:
  "io_bind (sleep d) f w = (if d < 0 then (Inl ValueError, w) else f () (w\<lparr>clock := clock w + d\<rparr>))"
  by (simp add: io_bind_def sleep_def)

text \<open>A first attempt on a record that nobody else holds takes the lock.\<close>

lemma acquire_loop_free:
  assumes "faults w = []" and "ws_lock w \<noteq> []"
    and "case lock_record (ws_lock w) k of None \<Rightarrow> True
         | Some row \<Rightarrow> \<not> held_by_other dt row (clock w) tok"
  shows "acquire_loop dt k u ttl b tok (a # rest) w =
     (Inr (Some tok),
      w\<lparr>ws_lock := grab (ws_lock w) k [tok, u, isoformat dt (clock w + ttl * 1000000) @ ''Z'']\<rparr>)"
  using assms(3) lock_record_grab [OF assms(2)]
  by (simp add: acquire_loop_step [OF assms(1)] Let_def split: option.splits)

text \<open>While another caller holds the record, every attempt sleeps and the loop gives up.\<close>

lemma acquire_loop_held:
  assumes "faults w = []" and "0 \<le> b"
    and "lock_record (ws_lock w) k = Some row"
    and "held_by_other dt row (clock w + waited b (butlast atts)) tok"
  shows "acquire_loop dt k u ttl b tok atts w = (Inr None, w\<lparr>clock := clock w + waited b atts\<rparr>)"
  using assms
proof (induction atts arbitrary: w)
  case Nil
  then show ?case by (simp add: acquire_loop.simps io_return_def waited_def)
next
  case (Cons a rest)
  have nn: "0 \<le> waited b (butlast (a # rest))"
    using Cons.prems(2) by (rule waited_nonneg)
  have h: "held_by_other dt row (clock w) tok"
    by (rule held_by_other_mono [OF Cons.prems(4)]) (use nn in linarith)
  have d: "\<not> b * (int a + 1) < 0" using Cons.prems(2) by (simp add: not_less)
  let ?w = "w\<lparr>clock := clock w + b * (int a + 1)\<rparr>"
  have step: "acquire_loop dt k u ttl b tok (a # rest) w = acquire_loop dt k u ttl b tok rest ?w"
    using h Cons.prems(3) d by (simp add: acquire_loop_step [OF Cons.prems(1)] Let_def bind_sleep)
  show ?case
  proof (cases rest)
    case Nil
    with step show ?thesis by (simp add: acquire_loop.simps io_return_def waited_def)
  next
    case (Cons a' rest')
    then have "waited b (butlast (a # rest)) = b * (int a + 1) + waited b (butlast rest)"
      by (simp add: waited_def algebra_simps)
    with Cons.prems have "held_by_other dt row (clock ?w + waited b (butlast rest)) tok"
      by (simp add: add.assoc)
    with Cons.IH [of ?w] Cons.prems
    have "acquire_loop dt k u ttl b tok rest ?w = (Inr None, ?w\<lparr>clock := clock ?w + waited b rest\<rparr>)"
      by simp
    with step show ?thesis by (simp add: waited_def algebra_simps)
  qed
qed




lemma butlast_upt0: "butlast [0..<n] = [0..<n - 1]"
  by (cases n) simp_all

lemma acquire_lock_held:
  assumes "faults w = []" and "0 \<le> b"
    and "lock_record (ws_lock w) k = Some row"
    and "held_by_other dt row (clock w + waited b [0..<n - 1]) (str_uuid (shd (uuid_src w)))"
  shows "acquire_lock dt k u ttl n b w =
     (Inr None, w\<lparr>uuid_src := stl (uuid_src w), clock := clock w + waited b [0..<n]\<rparr>)"
proof -
  let ?w = "w\<lparr>uuid_src := stl (uuid_src w)\<rparr>"
  have "acquire_loop dt k u ttl b (str_uuid (shd (uuid_src w))) [0..<n] ?w =
      (Inr None, ?w\<lparr>clock := clock ?w + waited b [0..<n]\<rparr>)"
    using assms by (intro acquire_loop_held [where row = row]) (simp_all add: butlast_upt0)
  then show ?thesis by (simp add: acquire_lock_def io_bind_def uuid4_def)
qed

lemma acquire_lock_free:
  assumes "faults w = []" and "ws_lock w \<noteq> []" and "0 < n"
    and "case lock_record (ws_lock w) k of None \<Rightarrow> True
         | Some row \<Rightarrow> \<not> held_by_other dt row (clock w) (str_uuid (shd (uuid_src w)))"
  shows "acquire_lock dt k u ttl n b w =
     (Inr (Some (str_uuid (shd (uuid_src w)))),
      w\<lparr>uuid_src := stl (uuid_src w),
        ws_lock := grab (ws_lock w) k
          [str_uuid (shd (uuid_src w)), u, isoformat dt (clock w + ttl * 1000000) @ ''Z'']\<rparr>)"
proof -
  let ?w = "w\<lparr>uuid_src := stl (uuid_src w)\<rparr>"
  from assms(3) have n: "[0..<n] = 0 # [1..<n]" by (simp add: upt_rec)
  have "acquire_loop dt k u ttl b (str_uuid (shd (uuid_src w))) (0 # [1..<n]) ?w =
     (Inr (Some (str_uuid (shd (uuid_src w)))),
      ?w\<lparr>ws_lock := grab (ws_lock ?w) k
          [str_uuid (shd (uuid_src w)), u, isoformat dt (clock ?w + ttl * 1000000) @ ''Z'']\<rparr>)"
    using assms by (intro acquire_loop_free) (simp_all split: option.splits)
  then show ?thesis by (simp add: acquire_lock_def io_bind_def uuid4_def n)
qed

lemma str_uuid_0: "str_uuid 0 = ''00000000-0000-0000-0000-000000000000''"
  by (simp add: str_uuid_def hex32_def hex_digit_def upt_rec)

lemma held_store_simps [simp]:
  "faults held_store = []" "clock held_store = 0" "uuid_src held_store = sconst 0"
  "ws_resv held_store = [HEADERS]" "ws_vers held_store = [VERS_HEADERS]"
  "ws_lock held_store = [LOCK_HEADERS, [''2024-01-01'', ''tok-bob'', ''bob'', ''99000000Z'']]"
  by (simp_all add: held_store_def)

lemma second_row_record [simp]:
  "lock_row [h, k # cells] k = Some 2" "lock_record [h, k # cells] k = Some (k # cells)"
  by (simp_all add: lock_record_def lock_row_def nth_row_def)

lemma held_store_record:
  "lock_record (ws_lock held_store) ''2024-01-01'' =
     Some [''2024-01-01'', ''tok-bob'', ''bob'', ''99000000Z'']"
  by simp

lemma held_store_held:
  "t \<le> 98000000 \<Longrightarrow> held_by_other decimal_time [''2024-01-01'', ''tok-bob'', ''bob'', ''99000000Z''] t (str_uuid 0)"
  by (simp add: held_by_other_def decimal_time_def strip_def is_space_def replace_Z_def
      py_int_def py_nat_def is_digit_def digit_val_def str_uuid_0)

lemma header_only_free: "lock_row [h] k = None" "lock_record [h] k = None"
  by (simp_all add: lock_record_def lock_row_def)

subsection \<open>Releasing the lock\<close>

lemma lock_record_row:
  "lock_record s k = Some row \<Longrightarrow> \<exists>i. lock_row s k = Some i \<and> nth_row s i = row \<and> 0 < i \<and> i \<le> length s \<and> s ! (i - 1) = row"
proof -
  assume "lock_record s k = Some row"
  then obtain i where f: "first_row (key_row k) s = Some (i, row)"
    using lock_record_Some by blast
  then have b: "0 < i" "i \<le> length s" "s ! (i - 1) = row" by (auto simp: first_row_Some)
  then have "nth_row s i = row" by (simp add: nth_row_def)
  moreover from f have "lock_row s k = Some i" by (simp add: lock_row_first)
  ultimately show ?thesis using b by blast
qed

lemma release_lock_ok:
  assumes "faults w = []"
  shows "release_lock dt k tok w =
     (Inr (),
      case lock_record (ws_lock w) k of
        None \<Rightarrow> w
      | Some row \<Rightarrow>
          if length row \<ge> 2 \<and> row ! 1 = tok
          then w\<lparr>ws_lock := grab (ws_lock w) k [[], [], isoformat dt (clock w - 1000000) @ ''Z'']\<rparr>
          else w)"
proof (cases "lock_record (ws_lock w) k")
  case None
  then have "lock_row (ws_lock w) k = None" by (simp add: lock_record_def split: option.splits)
  with None show ?thesis
    by (simp add: release_lock_def bind_ok [OF assms] io_return_def)
next
  case (Some row)
  then obtain i where "lock_row (ws_lock w) k = Some i" "nth_row (ws_lock w) i = row"
    using lock_record_row by blast
  with Some show ?thesis
    by (simp add: release_lock_def bind_ok [OF assms] io_return_def io_bind_utcnow grab_def
        prims_ok [OF assms])
qed

text \<open>Reading under faults: the sheets stay, the value is the stored one or the call fails.\<close>

lemma faults_same: "faults w = bs \<Longrightarrow> w\<lparr>faults := bs\<rparr> = w"
  by (cases w) auto

lemma api_read_cases:
  assumes "api_call (\<lambda>w. (f w, w)) w = (r, w')"
  shows "(r = Inl APIError \<or> (\<exists>bs. r = Inr (f (w\<lparr>faults := bs\<rparr>)))) \<and> (\<exists>bs. w' = w\<lparr>faults := bs\<rparr>)"
proof (cases "faults w")
  case Nil
  then have "w\<lparr>faults := []\<rparr> = w" by (rule faults_same)
  moreover from Nil assms have "r = Inr (f w)" "w' = w" by (auto simp: api_call_def)
  ultimately have "r = Inr (f (w\<lparr>faults := []\<rparr>))" "w' = w\<lparr>faults := []\<rparr>" by simp_all
  then show ?thesis by blast
next
  case (Cons b bs)
  with assms have "(r = Inl APIError \<or> r = Inr (f (w\<lparr>faults := bs\<rparr>)))" "w' = w\<lparr>faults := bs\<rparr>"
    by (auto simp: api_call_def split: if_splits)
  then show ?thesis by blast
qed

lemma lock_row_index_cases:
  assumes "lock_row_index k w = (r, w')"
  shows "(r = Inl APIError \<or> r = Inr (lock_row (ws_lock w) k)) \<and> (\<exists>bs. w' = w\<lparr>faults := bs\<rparr>)"
proof -
  obtain r0 w0 where g: "get_all_values Lock w = (r0, w0)" by (cases "get_all_values Lock w")
  from api_read_cases [OF g [unfolded get_all_values_def]]
  have c: "(r0 = Inl APIError \<or> r0 = Inr (ws_lock w))" "\<exists>bs. w0 = w\<lparr>faults := bs\<rparr>" by auto
  from assms g c show ?thesis
    by (auto simp: lock_row_index_def read_all_def io_bind_def io_return_def)
qed

lemma row_values_cases:
  assumes "row_values t i w = (r, w')"
  shows "(r = Inl APIError \<or> r = Inr (nth_row (sheet_of t w) i)) \<and> (\<exists>bs. w' = w\<lparr>faults := bs\<rparr>)"
  using api_read_cases [OF assms [unfolded row_values_def]] by auto

lemma release_lock_noop:
  assumes "case lock_record (ws_lock w) k of None \<Rightarrow> True
           | Some row \<Rightarrow> \<not> (length row \<ge> 2 \<and> row ! 1 = tok)"
  shows "ws_lock (snd (release_lock dt k tok w)) = ws_lock w"
proof -
  obtain r1 w1 where l: "lock_row_index k w = (r1, w1)" by (cases "lock_row_index k w")
  from lock_row_index_cases [OF l] obtain bs where
    c1: "r1 = Inl APIError \<or> r1 = Inr (lock_row (ws_lock w) k)" and w1: "w1 = w\<lparr>faults := bs\<rparr>"
    by auto
  show ?thesis
  proof (cases "lock_row (ws_lock w) k")
    case None
    with l c1 w1 show ?thesis
      by (auto simp: release_lock_def io_bind_def io_return_def)
  next
    case (Some i)
    obtain r2 w2 where rv: "row_values Lock i w1 = (r2, w2)" by (cases "row_values Lock i w1")
    from row_values_cases [OF rv] w1 obtain bs' where
      c2: "r2 = Inl APIError \<or> r2 = Inr (nth_row (ws_lock w) i)" and w2: "w2 = w\<lparr>faults := bs'\<rparr>"
      by auto
    from assms Some have "\<not> (length (nth_row (ws_lock w) i) \<ge> 2 \<and> nth_row (ws_lock w) i ! 1 = tok)"
      by (simp add: lock_record_def)
    with l c1 w1 rv c2 w2 Some show ?thesis
      by (auto simp: release_lock_def io_bind_def io_return_def)
  qed
qed

lemma grab_row:
  assumes "lock_record s k = Some row" and "lock_row s k = Some i"
  shows "grab s k [a, b, c] = s[i - 1 := k # a # b # c # drop 4 row]"
proof -
  from lock_record_row [OF assms(1)] assms(2)
  have i: "0 < i" "i \<le> length s" "s ! (i - 1) = row" by auto
  from lock_record_key [OF assms(1)] have "set_cells 2 [a, b, c] row = k # a # b # c # drop 4 row"
    by (simp add: set_cells_BD)
  with i assms(2) show ?thesis by (simp add: grab_def set_range_in)
qed

subsection \<open>The lock around a commit\<close>

lemma lock_record_ne: "lock_record s k = Some row \<Longrightarrow> s \<noteq> []"
  using lock_record_row by fastforce

lemma release_clears:
  assumes "lock_record (ws_lock w) k = Some row" and "length row \<ge> 2" and "row ! 1 = tok"
    and "release_lock dt k tok w = (Inr x, w')"
  shows "lock_record (ws_lock w') k =
     Some (k # [] # [] # (isoformat dt (clock w - 1000000) @ ''Z'') # drop 4 row)"
proof -
  have "release_lock dt k tok (calm w) = (Inr x, calm w')"
    using assms(4) by (rule fault_blindD [OF fb_release_lock])
  with assms(1-3)
  have "calm w' = (calm w)\<lparr>ws_lock := grab (ws_lock w) k [[], [], isoformat dt (clock w - 1000000) @ ''Z'']\<rparr>"
    by (simp add: release_lock_ok)
  then have "ws_lock (calm w') = grab (ws_lock w) k [[], [], isoformat dt (clock w - 1000000) @ ''Z'']"
    by simp
  with lock_record_grab [OF lock_record_ne [OF assms(1)], of k] assms(1) show ?thesis by simp
qed

lemma release_returns: "faults w = [] \<Longrightarrow> \<exists>w'. release_lock dt k tok w = (Inr (), w')"
  by (simp add: release_lock_ok)











subsection \<open>Expiry\<close>

lemma acquire_loop_Some_record:
  assumes "faults w = []" and "ws_lock w \<noteq> []"
    and "acquire_loop dt k u ttl b tok atts w = (Inr (Some t), w')"
  shows "\<exists>rest. lock_record (ws_lock w') k =
           Some (k # tok # u # (isoformat dt (clock w' + ttl * 1000000) @ ''Z'') # rest)"
  using assms
proof (induction atts arbitrary: w)
  case Nil
  then show ?case by (simp add: acquire_loop.simps io_return_def)
next
  case (Cons a rest)
  let ?held = "case lock_record (ws_lock w) k of None \<Rightarrow> False
               | Some row \<Rightarrow> held_by_other dt row (clock w) tok"
  show ?case
  proof (cases ?held)
    case True
    with Cons.prems(3)
    have "acquire_loop dt k u ttl b tok rest (w\<lparr>clock := clock w + b * (int a + 1)\<rparr>) = (Inr (Some t), w')"
      by (simp add: acquire_loop_step [OF Cons.prems(1)] Let_def bind_sleep split: if_splits)
    with Cons.IH [of "w\<lparr>clock := clock w + b * (int a + 1)\<rparr>"] Cons.prems(1,2)
    show ?thesis by simp
  next
    case False
    then have "case lock_record (ws_lock w) k of None \<Rightarrow> True
               | Some row \<Rightarrow> \<not> held_by_other dt row (clock w) tok"
      by (simp split: option.splits)
    from acquire_loop_free [OF Cons.prems(1,2) this, of u ttl b a rest] Cons.prems(3)
    have "w' = w\<lparr>ws_lock := grab (ws_lock w) k [tok, u, isoformat dt (clock w + ttl * 1000000) @ ''Z'']\<rparr>"
      by simp
    with lock_record_grab [OF Cons.prems(2), of k] show ?thesis by simp
  qed
qed

lemma acquire_lock_Some_record:
  assumes "ws_lock w \<noteq> []" and "acquire_lock dt k u ttl n b w = (Inr (Some t), w')"
  shows "\<exists>rest. lock_record (ws_lock w') k =
           Some (k # t # u # (isoformat dt (clock w' + ttl * 1000000) @ ''Z'') # rest)"
proof -
  have t: "t = str_uuid (shd (uuid_src w))" using assms(2) by (rule acquire_lock_token)
  have "acquire_lock dt k u ttl n b (calm w) = (Inr (Some t), calm w')"
    using assms(2) by (rule fault_blindD [OF fb_acquire_lock])
  then have "acquire_loop dt k u ttl b t [0..<n] ((calm w)\<lparr>uuid_src := stl (uuid_src w)\<rparr>) =
      (Inr (Some t), calm w')"
    by (simp add: acquire_lock_def io_bind_def uuid4_def t)
  from acquire_loop_Some_record [OF _ _ this] assms(1) show ?thesis by simp
qed

lemma stamp_read_back:
  assumes "datetime_ok dt"
  shows "strip (isoformat dt e @ ''Z'') = isoformat dt e @ ''Z''"
    and "fromisoformat dt (replace_Z (strip (isoformat dt e @ ''Z''))) = Some e"
proof -
  from assms have ok: "fromisoformat dt (isoformat dt e) = Some e" "CHR ''Z'' \<notin> set (isoformat dt e)"
    "\<forall>c \<in> set (isoformat dt e). \<not> is_space c"
    by (simp_all add: datetime_ok_def)
  have "\<not> is_space CHR ''Z''" by (simp add: is_space_def)
  with ok(3) show s: "strip (isoformat dt e @ ''Z'') = isoformat dt e @ ''Z''"
    by (intro strip_no_space) auto
  from ok(2) have "replace_Z (isoformat dt e @ ''Z'') = isoformat dt e"
    by (auto simp: replace_Z_def filter_id_conv)
  with s ok(1) show "fromisoformat dt (replace_Z (strip (isoformat dt e @ ''Z''))) = Some e"
    by simp
qed

lemma expired_not_held:
  assumes "datetime_ok dt" and "e \<le> now"
  shows "\<not> held_by_other dt (k # t # u # (isoformat dt e @ ''Z'') # rest) now tok"
  using assms(2) stamp_read_back [OF assms(1), of e]
  by (simp add: held_by_other_def)

lemma fresh_acquire:
  "acquire_lock decimal_time ''2024-01-01'' ''alice'' 30 5 500000 fresh_store =
     (Inr (Some (str_uuid 0)),
      fresh_store\<lparr>ws_lock := [LOCK_HEADERS, [''2024-01-01'', str_uuid 0, ''alice'', ''30000000Z'']]\<rparr>)"
  by (subst acquire_lock_free)
     (simp_all add: header_only_free grab_def decimal_time_def
        str_int_def str_nat.simps digit_char_def fresh_store_def)

subsection \<open>Versions across commits\<close>

lemma put_version_ne: "s \<noteq> [] \<Longrightarrow> put_version s k v \<noteq> []"
  by (auto simp: put_version_def set_range_def Let_def split: option.splits)

lemma calm_fields:
  assumes "calm w' = x"
  shows "ws_resv w' = ws_resv x" "ws_vers w' = ws_vers x" "ws_lock w' = ws_lock x" "clock w' = clock x"
proof -
  from assms have "ws_resv (calm w') = ws_resv x" "ws_vers (calm w') = ws_vers x"
    "ws_lock (calm w') = ws_lock x" "clock (calm w') = clock x" by simp_all
  then show "ws_resv w' = ws_resv x" "ws_vers w' = ws_vers x" "ws_lock w' = ws_lock x"
    "clock w' = clock x" by simp_all
qed

lemma save_date_sheets:
  assumes "save_date dt k d v u ul ttl w = (Inr res, w')"
  shows "(res = (True, []) \<and> stored_version (ws_vers w) k = v
          \<and> ws_vers w' = put_version (ws_vers w) k (v + 1)
          \<and> ws_resv w' = purge k (ws_resv w) @ new_rows dt k d (clock w'))
       \<or> (fst res = False \<and> ws_vers w' = ws_vers w \<and> ws_resv w' = ws_resv w)"
proof (cases "res = (False, ''LOCK_FAIL'')")
  case True
  have no: "save_steps dt k d v w0 \<noteq> (Inr (False, ''LOCK_FAIL''), w2)" for w0 w2
    using save_steps_Inr [of dt k d v w0 "(False, ''LOCK_FAIL'')" w2] by auto
  with assms True have ul: ul by (cases ul) (auto simp: save_date_no_lock)
  with assms True no have a: "acquire_lock dt k u ttl 5 500000 w = (Inr None, w')"
    by (auto simp: save_date_lock split: prod.splits sum.splits option.splits)
  from True keepsD [OF keeps_acquire_lock a, of Resv] keepsD [OF keeps_acquire_lock a, of Vers]
  show ?thesis by simp
next
  case False
  show ?thesis
  proof (cases ul)
    case nl: False
    with assms have s: "save_steps dt k d v w = (Inr res, w')" by (simp add: save_date_no_lock)
    from save_steps_Inr [OF s] show ?thesis
    proof
      assume "stored_version (ws_vers w) k \<noteq> v \<and> res = (False, ''VERSION_CONFLICT'') \<and> calm w' = calm w"
      then show ?thesis using calm_eqD(1,2) [of w' w] by simp
    next
      assume a: "stored_version (ws_vers w) k = v \<and> res = (True, []) \<and>
          calm w' = (calm w)\<lparr>ws_resv := purge k (ws_resv w) @ new_rows dt k d (clock w),
                             ws_vers := put_version (ws_vers w) k (v + 1)\<rparr>"
      then have "calm w' = (calm w)\<lparr>ws_resv := purge k (ws_resv w) @ new_rows dt k d (clock w),
                             ws_vers := put_version (ws_vers w) k (v + 1)\<rparr>" by simp
      from calm_fields(1,2,4) [OF this] a show ?thesis by simp
    qed
  next
    case True
    with assms False obtain tok w1 w2 x where
      a: "acquire_lock dt k u ttl 5 500000 w = (Inr (Some tok), w1)" and
      s: "save_steps dt k d v w1 = (Inr res, w2)" and
      r: "release_lock dt k tok w2 = (Inr x, w')"
      by (auto simp: save_date_lock split: prod.splits sum.splits option.splits)
    have f: "ws_resv w1 = ws_resv w" "ws_vers w1 = ws_vers w" "ws_resv w' = ws_resv w2" "ws_vers w' = ws_vers w2"
      using keepsD [OF keeps_acquire_lock a, of Resv] keepsD [OF keeps_acquire_lock a, of Vers]
        keepsD [OF keeps_release_lock r, of Resv] keepsD [OF keeps_release_lock r, of Vers]
      by simp_all
    have "release_lock dt k tok (calm w2) = (Inr x, calm w')"
      using r by (rule fault_blindD [OF fb_release_lock])
    then have "calm w' = (case lock_record (ws_lock w2) k of None \<Rightarrow> calm w2
        | Some row \<Rightarrow> if length row \<ge> 2 \<and> row ! 1 = tok
            then (calm w2)\<lparr>ws_lock := grab (ws_lock w2) k [[], [], isoformat dt (clock w2 - 1000000) @ ''Z'']\<rparr>
            else calm w2)"
      by (auto simp: release_lock_ok split: option.splits)
    from calm_fields(4) [OF this] have c: "clock w' = clock w2"
      by (simp split: option.splits if_splits)
    from save_steps_Inr [OF s] show ?thesis
    proof
      assume "stored_version (ws_vers w1) k \<noteq> v \<and> res = (False, ''VERSION_CONFLICT'') \<and> calm w2 = calm w1"
      then show ?thesis using calm_eqD(1,2) [of w2 w1] f by simp
    next
      assume b: "stored_version (ws_vers w1) k = v \<and> res = (True, []) \<and>
          calm w2 = (calm w1)\<lparr>ws_resv := purge k (ws_resv w1) @ new_rows dt k d (clock w1),
                             ws_vers := put_version (ws_vers w1) k (v + 1)\<rparr>"
      then have "calm w2 = (calm w1)\<lparr>ws_resv := purge k (ws_resv w1) @ new_rows dt k d (clock w1),
                             ws_vers := put_version (ws_vers w1) k (v + 1)\<rparr>" by simp
      from calm_fields(1,2,4) [OF this] b f c show ?thesis by simp
    qed
  qed
qed

lemma commit_bumps:
  assumes "save_date dt k d v u ul ttl w = (Inr (True, []), w')" and "ws_vers w \<noteq> []"
  shows "stored_version (ws_vers w') k = stored_version (ws_vers w) k + 1"
  using save_date_sheets [OF assms(1)] assms(2) by (auto simp: stored_version_put)

lemma failure_keeps:
  assumes "save_date dt k d v u ul ttl w = (Inr (False, reason), w')"
  shows "ws_vers w' = ws_vers w"
  using save_date_sheets [OF assms] by auto

lemma other_keeps:
  assumes "save_date dt k' d v u ul ttl w = (Inr res, w')" and "k' \<noteq> k"
  shows "stored_version (ws_vers w') k = stored_version (ws_vers w) k"
  using save_date_sheets [OF assms(1)] assms(2) by (auto simp: stored_version_put_other)

lemma save_date_header:
  assumes "save_date dt k d v u ul ttl w = (Inr res, w')" and "ws_vers w \<noteq> []"
  shows "ws_vers w' \<noteq> []"
  using save_date_sheets [OF assms(1)] assms(2) by (auto simp: put_version_ne)

lemma commits_version:
  "commits k w n w' \<Longrightarrow> ws_vers w \<noteq> [] \<Longrightarrow>
     ws_vers w' \<noteq> [] \<and> stored_version (ws_vers w') k = stored_version (ws_vers w) k + int n"
proof (induction rule: commits.induct)
  case start
  then show ?case by simp
next
  case (success n w1 dt d v u ul ttl w2)
  then show ?case using commit_bumps [of dt k d v u ul ttl w1 w2] save_date_header by auto
next
  case (failure n w1 dt d v u ul ttl reason w2)
  then show ?case using failure_keeps [of dt k d v u ul ttl w1 reason w2] by auto
next
  case (other n w1 k' dt d v u ul ttl res w2)
  then show ?case using other_keeps [of dt k' d v u ul ttl w1 res w2 k] save_date_header by auto
qed

subsection \<open>A commit without contention and without faults\<close>

lemma commit_ok:
  assumes "faults w = []" and "ws_lock w \<noteq> []"
    and "case lock_record (ws_lock w) k of None \<Rightarrow> True
         | Some row \<Rightarrow> \<not> held_by_other dt row (clock w) (str_uuid (shd (uuid_src w)))"
  shows "save_date dt k d v u True ttl w =
     (let tok = str_uuid (shd (uuid_src w));
          locked = grab (ws_lock w) k [tok, u, isoformat dt (clock w + ttl * 1000000) @ ''Z''];
          w3 = w\<lparr>uuid_src := stl (uuid_src w),
                 ws_lock := grab locked k [[], [], isoformat dt (clock w - 1000000) @ ''Z'']\<rparr>
      in if stored_version (ws_vers w) k \<noteq> v then (Inr (False, ''VERSION_CONFLICT''), w3)
         else (Inr (True, []),
               w3\<lparr>ws_resv := purge k (ws_resv w) @ new_rows dt k d (clock w),
                  ws_vers := put_version (ws_vers w) k (v + 1)\<rparr>))"
proof -
  let ?tok = "str_uuid (shd (uuid_src w))"
  let ?locked = "grab (ws_lock w) k [?tok, u, isoformat dt (clock w + ttl * 1000000) @ ''Z'']"
  have rec: "lock_record ?locked k = Some (k # ?tok # u # (isoformat dt (clock w + ttl * 1000000) @ ''Z'') #
      (case lock_record (ws_lock w) k of None \<Rightarrow> [] | Some r \<Rightarrow> drop 4 r))"
    by (rule lock_record_grab [OF assms(2)])
  show ?thesis
    using assms(1) rec
    by (simp add: save_date_lock acquire_lock_free assms save_steps_ok release_lock_ok Let_def)
qed

lemma grab_header_only: "grab [h] k cells = [h, k # cells]"
  by (simp add: grab_def header_only_free)

lemma grab_second: "grab [h, k # c] k [x, y, z] = [h, k # x # y # z # drop 3 c]"
  by (simp add: grab_def set_range_def set_cells_def numeral_3_eq_3)

lemma tombstone_free: "\<not> held_by_other dt (k # [] # rest) now tok"
  by (simp add: held_by_other_def)

lemma header_only_version [simp]: "version_row [h] k = None" "stored_version [h] k = 0"
  by (simp_all add: stored_version_def version_row_def)

lemma second_row_version [simp]:
  "version_row [h, [k, c]] k = Some (2, [k, c])"
  "stored_version [h, [k, c]] k = (case py_int c of Some v \<Rightarrow> v | None \<Rightarrow> 0)"
  by (simp_all add: stored_version_def version_row_def)

lemma py_int_small [simp]: "py_int ''1'' = Some 1" "py_int ''2'' = Some 2" "py_int ''abc'' = None"
  by (simp_all add: py_int_def py_nat_def strip_def is_space_def is_digit_def digit_val_def)

lemma str_int_small [simp]: "str_int 1 = ''1''" "str_int 2 = ''2''" "str_int (-1000000) = ''-1000000''"
  by (simp_all add: str_int_def str_nat.simps digit_char_def)

lemma scenario_first:
  "save_date decimal_time ''2024-01-01'' day_alice 0 ''alice'' True 30 fresh_store =
     (Inr (True, []), after_alice)"
  by (subst commit_ok)
     (simp_all add: Let_def header_only_free grab_header_only grab_second
        after_alice_def fresh_store_def purge_def new_rows_def lane_rows_def slot_row_def slot_get_def
        day_alice_def slot_alice_def row_alice_def put_version_def decimal_time_def)

lemma scenario_stale:
  "save_date decimal_time ''2024-01-01'' day_bob 0 ''bob'' True 30 after_alice =
     (Inr (False, ''VERSION_CONFLICT''), after_alice)"
  by (subst commit_ok)
     (simp_all add: Let_def tombstone_free grab_second after_alice_def fresh_store_def decimal_time_def)

lemma scenario_second:
  "save_date decimal_time ''2024-01-01'' day_both 1 ''bob'' True 30 after_alice =
     (Inr (True, []), after_both)"
  by (subst commit_ok)
     (simp_all add: Let_def tombstone_free grab_second after_alice_def after_both_def fresh_store_def
        purge_def key_row_def new_rows_def lane_rows_def slot_row_def slot_get_def
        day_both_def slot_alice_def slot_bob_def row_alice_def row_bob_def put_version_def
        set_range_def set_cells_def decimal_time_def)

lemma garbled_store_simps [simp]:
  "faults garbled_store = []" "ws_vers garbled_store = [VERS_HEADERS, [''2024-01-01'', ''abc'']]"
  "ws_resv garbled_store = [HEADERS]" "ws_lock garbled_store = [LOCK_HEADERS]"
  "clock garbled_store = 0"
  by (simp_all add: garbled_store_def)


subsection \<open>Loading a date\<close>

lemma load_rows_ok:
  "faults w = [] \<Longrightarrow>
     load_rows rs d w = (Inr (fold put_row (map (nth_row (ws_resv w)) rs) d), w)"
  by (induction rs arbitrary: d) (simp_all add: io_return_def io_bind_def prims_ok)

lemma nth_row_append: "i \<le> length xs \<Longrightarrow> nth_row (xs @ ys) i = nth_row xs i"
  by (auto simp: nth_row_def nth_append)

lemma rows_of_key: "map (nth_row s) (rows_for_date s k) = filter (key_row k) (tl s)"
proof (induction s rule: rev_induct)
  case Nil
  then show ?case by (simp add: rows_for_date_def)
next
  case (snoc x xs)
  have "map (nth_row (xs @ [x])) (rows_for_date xs k) = map (nth_row xs) (rows_for_date xs k)"
    using rows_for_date_bound [of _ xs k] by (intro map_cong) (auto simp: nth_row_append)
  with snoc have m: "map (nth_row (xs @ [x])) (rows_for_date xs k) = filter (key_row k) (tl xs)"
    by simp
  show ?case
  proof (cases "xs = []")
    case True
    then show ?thesis by (simp add: rows_for_date_def)
  next
    case False
    have "nth_row (xs @ [x]) (Suc (length xs)) = x" by (simp add: nth_row_def)
    with False m show ?thesis by (simp add: rows_for_date_snoc)
  qed
qed

lemma init_day_eq: "init_day bs = [(''A'', empty_lane bs), (''B'', empty_lane bs)]"
  by (simp add: init_day_def)

lemma put_row_lanes:
  "put_row row [(''A'', la), (''B'', lb)] =
     [(''A'', lane_put ''A'' [row] la), (''B'', lane_put ''B'' [row] lb)]"
  by (auto simp: put_row_def set_slot_def lane_put_def row_slot_def Let_def)

lemma lane_put_Cons: "lane_put c (row # rows) l = lane_put c rows (lane_put c [row] l)"
  by (simp add: lane_put_def)

lemma fold_put_row:
  "fold put_row rows [(''A'', la), (''B'', lb)] =
     [(''A'', lane_put ''A'' rows la), (''B'', lane_put ''B'' rows lb)]"
proof (induction rows arbitrary: la lb)
  case Nil
  then show ?case by (simp add: lane_put_def)
next
  case (Cons row rows)
  show ?case
    by (simp add: put_row_lanes Cons.IH lane_put_Cons [of _ row rows])
qed

lemma load_date_ok:
  assumes "faults w = []"
  shows "load_date k w =
     (Inr (loaded (blocks w) (filter (key_row k) (tl (ws_resv w))), stored_version (ws_vers w) k), w)"
  using assms
  by (simp add: load_date_def io_bind_def io_return_def session_blocks_def find_rows_ok
      load_rows_ok get_version_ok rows_of_key init_day_eq fold_put_row loaded_def)

lemma purge_ne: "s \<noteq> [] \<Longrightarrow> purge k s \<noteq> []"
  by (cases s) (simp_all add: purge_def)

lemma purged_rows: "s \<noteq> [] \<Longrightarrow> filter (key_row k) (tl (purge k s @ rs)) = filter (key_row k) rs"
  by (cases s) (simp_all add: purge_def)

lemma new_rows_keyed: "row \<in> set (new_rows dt k d now) \<Longrightarrow> key_row k row"
  by (auto simp: new_rows_def lane_rows_def slot_row_def key_row_def split: option.splits if_splits)

lemma rows_after_commit:
  "s \<noteq> [] \<Longrightarrow> filter (key_row k) (tl (purge k s @ new_rows dt k d now)) = new_rows dt k d now"
  using new_rows_keyed by (simp add: purged_rows filter_id_conv)

subsection \<open>Saving and loading a day\<close>

lemma rel_option_None_iff: "rel_option R x y \<Longrightarrow> (x = None) = (y = None)"
  by (cases x; cases y) simp_all

lemma dict_eq_iff: "dict_eq R d d' \<longleftrightarrow> (\<forall>k. rel_option R (map_of d k) (map_of d' k))"
proof
  assume "dict_eq R d d'"
  then have e: "set (map fst d) = set (map fst d')"
    and r: "\<forall>k \<in> set (map fst d). rel_option R (map_of d k) (map_of d' k)"
    unfolding dict_eq_def by blast+
  show "\<forall>k. rel_option R (map_of d k) (map_of d' k)"
  proof
    fix k
    show "rel_option R (map_of d k) (map_of d' k)"
    proof (cases "k \<in> set (map fst d)")
      case True
      with r show ?thesis by blast
    next
      case False
      with e have "k \<notin> set (map fst d')" by blast
      with False have "map_of d k = None" "map_of d' k = None" by (simp_all add: map_of_eq_None_iff)
      then show ?thesis by simp
    qed
  qed
next
  assume a: "\<forall>k. rel_option R (map_of d k) (map_of d' k)"
  have "(k \<in> fst ` set d) = (k \<in> fst ` set d')" for k
    using rel_option_None_iff [OF a [rule_format, of k]] by (simp add: map_of_eq_None_iff)
  then have "set (map fst d) = set (map fst d')" by auto
  moreover have "\<forall>k \<in> set (map fst d). rel_option R (map_of d k) (map_of d' k)"
    using a by simp
  ultimately show "dict_eq R d d'" unfolding dict_eq_def by (rule conjI)
qed

lemma row_slot_slot_row: "row_slot (slot_row dt k c b slot now) = stored_slot dt now slot"
  by (simp add: row_slot_def slot_row_def stored_slot_def)

lemma lane_rows_kept:
  "lane_rows dt k c lane now = map (\<lambda>(b, slot). slot_row dt k c b slot now) (kept lane)"
proof (induction lane)
  case Nil
  then show ?case by (simp add: lane_rows_def kept_def)
next
  case (Cons x lane)
  obtain b s where x: "x = (b, s)" by (cases x)
  from Cons have ih: "concat (map (\<lambda>(block_id, s). case s of None \<Rightarrow> []
        | Some slot \<Rightarrow> if slot \<noteq> [] then [slot_row dt k c block_id slot now] else []) lane) =
      map (\<lambda>(b, slot). slot_row dt k c b slot now) (kept lane)"
    by (simp add: lane_rows_def)
  show ?case
    by (cases s) (simp_all add: x lane_rows_def ih kept_def)
qed

lemma lane_put_append: "lane_put c (xs @ ys) l = lane_put c ys (lane_put c xs l)"
  by (simp add: lane_put_def)

lemma lane_put_lane_rows:
  "lane_put c (map (\<lambda>(b, slot). slot_row dt k c' b slot now) xs) l =
     (if c = c' then fold (\<lambda>(b, slot). AList.update b (Some (stored_slot dt now slot))) xs l else l)"
proof (induction xs arbitrary: l)
  case Nil
  then show ?case by (simp add: lane_put_def)
next
  case (Cons x xs)
  obtain b slot where x: "x = (b, slot)" by (cases x)
  have 1: "lane_put c [slot_row dt k c' b slot now] l =
      (if c = c' then AList.update b (Some (stored_slot dt now slot)) l else l)"
    using row_slot_slot_row [of dt k c' b slot now]
    by (simp add: lane_put_def) (simp add: slot_row_def)
  show ?case
    using Cons.IH
    by (simp add: x 1 lane_put_Cons [of c "slot_row dt k c' b slot now"
          "map (\<lambda>(b, slot). slot_row dt k c' b slot now) xs"])
qed

lemma loaded_new_rows:
  "loaded bs (new_rows dt k d now) =
     [(''A'', fold (\<lambda>(b, slot). AList.update b (Some (stored_slot dt now slot)))
               (kept (case map_of d ''A'' of Some l \<Rightarrow> l | None \<Rightarrow> [])) (empty_lane bs)),
      (''B'', fold (\<lambda>(b, slot). AList.update b (Some (stored_slot dt now slot)))
               (kept (case map_of d ''B'' of Some l \<Rightarrow> l | None \<Rightarrow> [])) (empty_lane bs))]"
  by (simp add: loaded_def new_rows_def lane_put_append lane_rows_kept lane_put_lane_rows)

lemma map_of_fold_update:
  "map_of (fold (\<lambda>(b, slot). AList.update b (Some (f slot))) xs l) b =
     (case map_of (rev xs) b of Some slot \<Rightarrow> Some (Some (f slot)) | None \<Rightarrow> map_of l b)"
proof (induction xs arbitrary: l)
  case Nil
  then show ?case by simp
next
  case (Cons x xs)
  obtain b' slot where x: "x = (b', slot)" by (cases x)
  show ?case
  proof (cases "map_of (rev xs) b")
    case None
    then show ?thesis by (simp add: x Cons.IH update_conv' map_add_def)
  next
    case (Some a)
    then show ?thesis by (simp add: x Cons.IH update_conv' map_add_def)
  qed
qed

lemma map_of_rev_distinct: "distinct (map fst xs) \<Longrightarrow> map_of (rev xs) = map_of xs"
  by (rule map_of_inject_set [THEN iffD2]) (simp_all add: rev_map [symmetric])

lemma kept_simps:
  "kept [] = []"
  "kept ((b, None) # lane) = kept lane"
  "kept ((b, Some slot) # lane) = (if slot \<noteq> [] then (b, slot) # kept lane else kept lane)"
  by (simp_all add: kept_def)

lemma kept_keys: "k \<in> set (map fst (kept lane)) \<Longrightarrow> k \<in> set (map fst lane)"
proof (induction lane)
  case Nil
  then show ?case by (simp add: kept_simps)
next
  case (Cons x lane)
  obtain b s where x: "x = (b, s)" by (cases x)
  show ?case
  proof (cases s)
    case None
    with Cons x show ?thesis by (simp add: kept_simps)
  next
    case (Some slot)
    with Cons x show ?thesis by (cases "slot = []") (auto simp: kept_simps)
  qed
qed

lemma distinct_kept: "distinct (map fst lane) \<Longrightarrow> distinct (map fst (kept lane))"
proof (induction lane)
  case Nil
  then show ?case by (simp add: kept_simps)
next
  case (Cons x lane)
  obtain b s where x: "x = (b, s)" by (cases x)
  from Cons.prems x have nb: "b \<notin> set (map fst (kept lane))" using kept_keys [of b lane] by auto
  from Cons have d: "distinct (map fst (kept lane))" by simp
  show ?case
  proof (cases s)
    case None
    with d x show ?thesis by (simp add: kept_simps)
  next
    case (Some slot)
    with d nb x show ?thesis by (cases "slot = []") (simp_all add: kept_simps)
  qed
qed

lemma map_of_kept:
  "distinct (map fst lane) \<Longrightarrow>
     map_of (kept lane) b =
       (case map_of lane b of Some (Some slot) \<Rightarrow> if slot \<noteq> [] then Some slot else None | _ \<Rightarrow> None)"
proof (induction lane)
  case Nil
  then show ?case by (simp add: kept_simps)
next
  case (Cons x lane)
  obtain b' s where x: "x = (b', s)" by (cases x)
  from Cons.prems x have "b' \<notin> set (map fst (kept lane))" using kept_keys [of b' lane] by auto
  then have n: "map_of (kept lane) b' = None" by (simp add: map_of_eq_None_iff)
  from Cons have ih: "map_of (kept lane) b =
       (case map_of lane b of Some (Some slot) \<Rightarrow> if slot \<noteq> [] then Some slot else None | _ \<Rightarrow> None)"
    by simp
  show ?case
  proof (cases "b = b'")
    case True
    show ?thesis
    proof (cases s)
      case None
      with True n x show ?thesis by (simp add: kept_simps)
    next
      case (Some slot)
      with True n x show ?thesis by (cases "slot = []") (simp_all add: kept_simps)
    qed
  next
    case False
    show ?thesis
    proof (cases s)
      case None
      with False ih x show ?thesis by (simp add: kept_simps)
    next
      case (Some slot)
      with False ih x show ?thesis by (cases "slot = []") (simp_all add: kept_simps)
    qed
  qed
qed

lemma map_of_empty_lane: "map_of (empty_lane bs) b = (if b \<in> set bs then Some None else None)"
proof -
  have "map_of (fold (\<lambda>b d. AList.update b None d) bs l) b =
      (if b \<in> set bs then Some None else map_of l b)" for l :: lane
    by (induction bs arbitrary: l) (simp_all add: update_conv')
  then show ?thesis by (simp add: empty_lane_def)
qed

lemma lane_after_commit:
  assumes "distinct (map fst lane)"
  shows "map_of (fold (\<lambda>(b, slot). AList.update b (Some (stored_slot dt now slot))) (kept lane)
            (empty_lane bs)) b =
     (case map_of lane b of
        Some (Some slot) \<Rightarrow>
          if slot \<noteq> [] then Some (Some (stored_slot dt now slot))
          else if b \<in> set bs then Some None else None
      | _ \<Rightarrow> if b \<in> set bs then Some None else None)"
proof -
  have "map_of (rev (kept lane)) b = map_of (kept lane) b"
    using distinct_kept [OF assms] by (simp add: map_of_rev_distinct)
  then show ?thesis
    by (simp add: map_of_fold_update map_of_kept [OF assms] map_of_empty_lane split: option.splits)
qed

text \<open>A slot with exactly the three keys reads back as itself.\<close>

lemma map_of_stored_slot:
  "map_of (stored_slot dt now slot) ''user'' = Some (slot_get slot ''user'' [])"
  "map_of (stored_slot dt now slot) ''note'' = Some (slot_get slot ''note'' [])"
  "slot_get slot ''createdAt'' [] \<noteq> [] \<Longrightarrow>
     map_of (stored_slot dt now slot) ''createdAt'' = Some (slot_get slot ''createdAt'' [])"
  "key \<noteq> ''user'' \<Longrightarrow> key \<noteq> ''note'' \<Longrightarrow> key \<noteq> ''createdAt'' \<Longrightarrow>
     map_of (stored_slot dt now slot) key = None"
  by (simp_all add: stored_slot_def)

lemma slot_get_Some: "map_of slot key = Some v \<Longrightarrow> slot_get slot key dflt = v"
  by (simp add: slot_get_def)

lemma three_keys: "fst ` set xs = {a, b, c} \<Longrightarrow> (key \<in> fst ` set xs) = (key = a \<or> key = b \<or> key = c)"
  by auto

lemma present_key: "key \<in> fst ` set xs \<Longrightarrow> \<exists>v. map_of xs key = Some v"
  by (cases "map_of xs key") (simp_all add: map_of_eq_None_iff)

lemma slot_ok_keys:
  "slot_ok slot \<Longrightarrow> fst ` set slot = {''user'', ''note'', ''createdAt''}"
  "slot_ok slot \<Longrightarrow> slot_get slot ''createdAt'' [] \<noteq> []"
  unfolding slot_ok_def set_map by (rule conjunct1, assumption) (rule conjunct2, assumption)

lemma slot_ok_stored:
  assumes "slot_ok slot"
  shows "same_slot (stored_slot dt now slot) slot" and "slot \<noteq> []"
proof -
  note mem = three_keys [OF slot_ok_keys(1) [OF assms]]
  note c = slot_ok_keys(2) [OF assms]
  have u: "''user'' \<in> fst ` set slot" by (rule mem [THEN iffD2]) (rule disjI1, rule refl)
  have n: "''note'' \<in> fst ` set slot"
    by (rule mem [THEN iffD2]) (rule disjI2, rule disjI1, rule refl)
  have t: "''createdAt'' \<in> fst ` set slot"
    by (rule mem [THEN iffD2]) (rule disjI2, rule disjI2, rule refl)
  from u show "slot \<noteq> []" by (cases slot) simp_all
  have "map_of (stored_slot dt now slot) key = map_of slot key" for key
  proof -
    consider "key = ''user''" | "key = ''note''" | "key = ''createdAt''"
      | "key \<noteq> ''user''" "key \<noteq> ''note''" "key \<noteq> ''createdAt''" by blast
    then show ?thesis
    proof cases
      case 1
      from present_key [OF u] obtain v where "map_of slot ''user'' = Some v" ..
      with 1 show ?thesis by (simp only: map_of_stored_slot slot_get_Some)
    next
      case 2
      from present_key [OF n] obtain v where "map_of slot ''note'' = Some v" ..
      with 2 show ?thesis by (simp only: map_of_stored_slot slot_get_Some)
    next
      case 3
      from present_key [OF t] obtain v where "map_of slot ''createdAt'' = Some v" ..
      moreover note map_of_stored_slot(3) [OF c, of dt now]
      ultimately show ?thesis using 3 by (simp only: slot_get_Some)
    next
      case 4
      with mem [of key] have "key \<notin> fst ` set slot" by (simp only: simp_thms)
      then have "map_of slot key = None" by (simp only: map_of_eq_None_iff not_False_eq_True)
      with map_of_stored_slot(4) [OF 4, of dt now slot] show ?thesis by simp
    qed
  qed
  then show "same_slot (stored_slot dt now slot) slot"
    by (simp add: same_slot_def dict_eq_iff option.rel_eq)
qed

lemma lane_ok_round_trip:
  assumes "lane_ok bs lane"
  shows "same_lane (fold (\<lambda>(b, slot). AList.update b (Some (stored_slot dt now slot))) (kept lane)
            (empty_lane bs)) lane"
proof -
  from assms have d: "distinct (map fst lane)" and sub: "set bs \<subseteq> fst ` set lane"
    and each: "\<And>b s. (b, s) \<in> set lane \<Longrightarrow> (case s of None \<Rightarrow> b \<in> set bs | Some slot \<Rightarrow> slot_ok slot)"
    by (auto simp: lane_ok_def)
  let ?l = "fold (\<lambda>(b, slot). AList.update b (Some (stored_slot dt now slot))) (kept lane) (empty_lane bs)"
  have "rel_option (rel_option same_slot) (map_of ?l b) (map_of lane b)" for b
  proof (cases "map_of lane b")
    case None
    then have "b \<notin> fst ` set lane" by (simp add: map_of_eq_None_iff)
    with sub have "b \<notin> set bs" by blast
    with None show ?thesis by (simp add: lane_after_commit [OF d])
  next
    case (Some s)
    then have m: "(b, s) \<in> set lane" by (rule map_of_SomeD)
    show ?thesis
    proof (cases s)
      case None
      with each [OF m] Some show ?thesis by (simp add: lane_after_commit [OF d])
    next
      case (Some slot)
      with each [OF m] have ok: "slot_ok slot" by simp
      from slot_ok_stored(1) [OF ok, of dt now] slot_ok_stored(2) [OF ok] Some \<open>map_of lane b = Some s\<close> show ?thesis
        by (simp add: lane_after_commit [OF d])
    qed
  qed
  then show ?thesis by (simp add: same_lane_def dict_eq_iff)
qed

lemma normal_day_round_trip:
  assumes "normal_day bs d"
  shows "same_day (loaded bs (new_rows dt k d now)) d"
proof -
  from assms obtain la lb where la: "map_of d ''A'' = Some la" "lane_ok bs la"
    and lb: "map_of d ''B'' = Some lb" "lane_ok bs lb"
    by (auto simp: normal_day_def split: option.splits)
  from assms have keys: "fst ` set d = {''A'', ''B''}" by (simp add: normal_day_def)
  have "rel_option same_lane (map_of (loaded bs (new_rows dt k d now)) c) (map_of d c)" for c
  proof (cases "c = ''A'' \<or> c = ''B''")
    case True
    then show ?thesis
      using la lb lane_ok_round_trip [OF la(2), of dt now] lane_ok_round_trip [OF lb(2), of dt now]
      by (auto simp: loaded_new_rows)
  next
    case False
    with keys have "c \<notin> fst ` set d" by simp
    then have "map_of d c = None" by (simp add: map_of_eq_None_iff)
    with False show ?thesis by (simp add: loaded_new_rows)
  qed
  then show ?thesis by (simp add: same_day_def dict_eq_iff)
qed

lemma load_after_commit:
  assumes s: "save_date dt k d v u ul ttl w = (Inr (True, []), w')"
    and h: "ws_vers w \<noteq> []" and f: "faults w' = []"
  shows "\<exists>d'. load_date k w' = (Inr (d', stored_version (ws_vers w) k + 1), w')
     \<and> (ws_resv w \<noteq> [] \<longrightarrow> d' = loaded (blocks w') (new_rows dt k d (clock w')))"
proof -
  from save_date_sheets [OF s]
  have sv: "stored_version (ws_vers w) k = v" and ve: "ws_vers w' = put_version (ws_vers w) k (v + 1)"
    and re: "ws_resv w' = purge k (ws_resv w) @ new_rows dt k d (clock w')"
    by simp_all
  from ve sv h have "stored_version (ws_vers w') k = stored_version (ws_vers w) k + 1"
    by (simp add: stored_version_put)
  with re show ?thesis
    by (simp add: load_date_ok [OF f] rows_after_commit)
qed

lemma slot_at_loaded:
  assumes "c = ''A'' \<or> c = ''B''" and "distinct (map fst (lane_of d c))"
  shows "slot_at (loaded bs (new_rows dt k d now)) c b = read_back dt now bs d c b"
proof -
  have "slot_at d c b = map_of (lane_of d c) b"
    by (simp add: slot_at_def lane_of_def split: option.splits)
  moreover have "slot_at (loaded bs (new_rows dt k d now)) c b =
      map_of (fold (\<lambda>(b, slot). AList.update b (Some (stored_slot dt now slot))) (kept (lane_of d c))
            (empty_lane bs)) b"
    using assms(1) by (auto simp: slot_at_def loaded_new_rows lane_of_def)
  ultimately show ?thesis
    by (simp add: read_back_def lane_after_commit [OF assms(2)])
qed

lemma same_dayD:
  "same_day d' d \<Longrightarrow> map_of d' c = Some l' \<Longrightarrow> map_of d c = Some l \<Longrightarrow> same_lane l' l"
  by (auto simp: same_day_def dict_eq_iff dest: spec [of _ c])

lemma same_laneD:
  "same_lane l' l \<Longrightarrow> map_of l' b = Some (Some s') \<Longrightarrow> map_of l b = Some (Some s) \<Longrightarrow> same_slot s' s"
  by (auto simp: same_lane_def dict_eq_iff dest: spec [of _ b])

lemma same_slotD: "same_slot s' s \<Longrightarrow> map_of s' key = map_of s key"
  by (auto simp: same_slot_def dict_eq_iff option.rel_eq)

lemma str_int_0 [simp]: "str_int 0 = ''0''"
  by (simp add: str_int_def str_nat.simps digit_char_def)

lemma unstamped_commit:
  "save_date decimal_time ''2024-01-01'' day_unstamped 0 ''alice'' True 30 fresh_store =
     (Inr (True, []), after_unstamped)"
  by (subst commit_ok)
     (simp_all add: Let_def header_only_free grab_header_only grab_second
        after_unstamped_def fresh_store_def purge_def new_rows_def lane_rows_def slot_row_def
        slot_get_def day_unstamped_def put_version_def decimal_time_def)

lemma unstamped_load:
  "load_date ''2024-01-01'' after_unstamped = (Inr (day_stamped, 1), after_unstamped)"
  by (simp add: load_date_ok after_unstamped_def loaded_def lane_put_def row_slot_def empty_lane_def
      key_row_def day_stamped_def)

lemma stamped_differs: "\<not> same_day day_stamped day_unstamped"
proof
  assume "same_day day_stamped day_unstamped"
  then have "same_lane
      [(''LUNCHA'', Some [(''user'', ''alice''), (''note'', []), (''createdAt'', ''0Z'')]),
       (''LUNCHB'', None), (''AFTER'', None)]
      [(''LUNCHA'', Some [(''user'', ''alice''), (''note'', []), (''createdAt'', [])]),
       (''LUNCHB'', None), (''AFTER'', None)]"
    by (rule same_dayD [where c = "''A''"]) (simp_all add: day_stamped_def day_unstamped_def)
  then have "same_slot [(''user'', ''alice''), (''note'', []), (''createdAt'', ''0Z'')]
      [(''user'', ''alice''), (''note'', []), (''createdAt'', [])]"
    by (rule same_laneD [where b = "''LUNCHA''"]) simp_all
  from same_slotD [OF this, of "''createdAt''"] show False by simp
qed


lemma normal_day_alice: "normal_day [''LUNCHA'', ''LUNCHB'', ''AFTER''] day_alice"
  by (simp add: normal_day_def lane_ok_def slot_ok_def slot_get_def day_alice_def slot_alice_def)

lemma after_alice_simps [simp]:
  "faults after_alice = []" "blocks after_alice = [''LUNCHA'', ''LUNCHB'', ''AFTER'']"
  "clock after_alice = 0"
  by (simp_all add: after_alice_def)





section \<open>The claims\<close>

text \<open>
  C1. A commit that reaches the version check succeeds exactly when the stored version
  equals the expected one. Without the lock and without transport faults the call returns,
  with success or with \<open>VERSION_CONFLICT\<close>. Whenever the call returns a result other than
  \<open>LOCK_FAIL\<close> (with or without the lock, whatever faults are to come), the result is success
  if and only if the stored version equals \<open>expected_version\<close>, it is \<open>VERSION_CONFLICT\<close>
  otherwise, and then the reservations and the versions sheet are what they were before
  the call. The lock operations do not write the versions sheet, so the version read at the
  check is the one stored when the call starts.
\<close>

theorem occ_gate:
  "(faults w = [] \<longrightarrow>
      fst (save_date dt k d v u False ttl w) =
        Inr (if stored_version (ws_vers w) k = v then (True, []) else (False, ''VERSION_CONFLICT'')))
   \<and> (\<forall>res w'. save_date dt k d v u use_lock ttl w = (Inr res, w') \<and> res \<noteq> (False, ''LOCK_FAIL'') \<longrightarrow>
        (res = (True, []) \<longleftrightarrow> stored_version (ws_vers w) k = v)
        \<and> (stored_version (ws_vers w) k \<noteq> v \<longrightarrow>
             res = (False, ''VERSION_CONFLICT'') \<and> ws_resv w' = ws_resv w \<and> ws_vers w' = ws_vers w))"
proof -
  have 1: "faults w = [] \<longrightarrow>
      fst (save_date dt k d v u False ttl w) =
        Inr (if stored_version (ws_vers w) k = v then (True, []) else (False, ''VERSION_CONFLICT''))"
    by (simp add: save_date_no_lock save_steps_ok)
  have 2: "(res = (True, []) \<longleftrightarrow> stored_version (ws_vers w) k = v)
        \<and> (stored_version (ws_vers w) k \<noteq> v \<longrightarrow>
             res = (False, ''VERSION_CONFLICT'') \<and> ws_resv w' = ws_resv w \<and> ws_vers w' = ws_vers w)"
    if a: "save_date dt k d v u use_lock ttl w = (Inr res, w') \<and> res \<noteq> (False, ''LOCK_FAIL'')"
    for res w'
  proof -
    from a obtain w1 w2 where s: "save_steps dt k d v w1 = (Inr res, w2)"
      and f: "ws_resv w1 = ws_resv w" "ws_vers w1 = ws_vers w"
         "ws_resv w' = ws_resv w2" "ws_vers w' = ws_vers w2"
      using save_date_Inr by blast
    from save_steps_Inr [OF s] f(2)
    have i: "res = (True, []) \<longleftrightarrow> stored_version (ws_vers w) k = v" by auto
    have "res = (False, ''VERSION_CONFLICT'') \<and> ws_resv w' = ws_resv w \<and> ws_vers w' = ws_vers w"
      if ne: "stored_version (ws_vers w) k \<noteq> v"
    proof -
      from ne save_steps_Inr [OF s] f(2)
      have "res = (False, ''VERSION_CONFLICT'')" "calm w2 = calm w1" by auto
      with f calm_eqD(1,2) [of w2 w1] show ?thesis by simp
    qed
    with i show ?thesis by blast
  qed
  from 1 2 show ?thesis by blast
qed


theorem occ_gate_witness:
  "faults fresh_store = []
   \<and> fst (save_date decimal_time ''2024-01-01'' [] 0 ''alice'' False 30 fresh_store) = Inr (True, [])
   \<and> save_date decimal_time ''2024-01-01'' [] 1 ''alice'' False 30 fresh_store =
       (Inr (False, ''VERSION_CONFLICT''), fresh_store)
   \<and> stored_version (ws_vers fresh_store) ''2024-01-01'' \<noteq> 1
   \<and> ws_resv fresh_store = [HEADERS] \<and> ws_vers fresh_store = [VERS_HEADERS]"
proof -
  have run: "save_date decimal_time ''2024-01-01'' [] 1 ''alice'' False 30 fresh_store =
       (Inr (False, ''VERSION_CONFLICT''), fresh_store)"
    by (simp add: save_date_no_lock save_steps_ok stored_version_fresh)
  have p1: "fst (save_date decimal_time ''2024-01-01'' [] 0 ''alice'' False 30 fresh_store) = Inr (True, [])"
    using occ_gate [where w = fresh_store and dt = decimal_time and k = "''2024-01-01''" and d = "[]"
      and v = 0 and u = "''alice''" and ttl = 30, THEN conjunct1]
    by (simp add: stored_version_fresh)
  have ne: "(False, ''VERSION_CONFLICT'') \<noteq> (False, ''LOCK_FAIL'')" by simp
  have p2: "stored_version (ws_vers fresh_store) ''2024-01-01'' \<noteq> 1"
    using occ_gate [where w = fresh_store and dt = decimal_time and k = "''2024-01-01''" and d = "[]"
      and v = 1 and u = "''alice''" and ttl = 30 and use_lock = False, THEN conjunct2, rule_format,
      OF conjI [OF run ne]]
    by simp
  from p1 p2 run show ?thesis by simp
qed

text \<open>
  C7. When \<open>acquire_lock\<close> gives no token, \<open>save_date\<close> with the lock returns
  \<open>(False, "LOCK_FAIL")\<close> in the world that \<open>acquire_lock\<close> left, and the reservations
  and the versions sheet are what they were before the call. Conversely a call that
  returns \<open>LOCK_FAIL\<close> used the lock, got no token, and wrote neither sheet.
\<close>

theorem lock_fail_no_writes:
  "(acquire_lock dt k u ttl 5 500000 w = (Inr None, wl) \<longrightarrow>
      save_date dt k d v u True ttl w = (Inr (False, ''LOCK_FAIL''), wl)
      \<and> ws_resv wl = ws_resv w \<and> ws_vers wl = ws_vers w)
   \<and> (save_date dt k d v u use_lock ttl w = (Inr (False, ''LOCK_FAIL''), w') \<longrightarrow>
        use_lock \<and> acquire_lock dt k u ttl 5 500000 w = (Inr None, w')
        \<and> ws_resv w' = ws_resv w \<and> ws_vers w' = ws_vers w)"
proof -
  have 1: "save_date dt k d v u True ttl w = (Inr (False, ''LOCK_FAIL''), wl)
      \<and> ws_resv wl = ws_resv w \<and> ws_vers wl = ws_vers w"
    if a: "acquire_lock dt k u ttl 5 500000 w = (Inr None, wl)"
    using a keepsD [OF keeps_acquire_lock a, of Resv] keepsD [OF keeps_acquire_lock a, of Vers]
    by (simp add: save_date_lock)
  have 2: "use_lock \<and> acquire_lock dt k u ttl 5 500000 w = (Inr None, w')
        \<and> ws_resv w' = ws_resv w \<and> ws_vers w' = ws_vers w"
    if s: "save_date dt k d v u use_lock ttl w = (Inr (False, ''LOCK_FAIL''), w')"
  proof -
    have no: "save_steps dt k d v w0 \<noteq> (Inr (False, ''LOCK_FAIL''), w2)" for w0 w2
      using save_steps_Inr [of dt k d v w0 "(False, ''LOCK_FAIL'')" w2] by auto
    with s have ul: use_lock by (cases use_lock) (auto simp: save_date_no_lock)
    with s no have a: "acquire_lock dt k u ttl 5 500000 w = (Inr None, w')"
      by (auto simp: save_date_lock split: prod.splits sum.splits option.splits)
    with ul keepsD [OF keeps_acquire_lock a, of Resv] keepsD [OF keeps_acquire_lock a, of Vers]
    show ?thesis by simp
  qed
  from 1 2 show ?thesis by blast
qed



text \<open>
  C5. \<open>release_lock(key, token)\<close> leaves the lock sheet as it is when there is no lock
  record for the key, or when the record has no token cell or a token other than \<open>token\<close>;
  this holds whatever faults are to come. When the stored token equals \<open>token\<close> and the
  transport does not fail, the call overwrites cells B to D of that record with an empty
  token, an empty holder and the expiry \<open>now\<close> minus one second, and changes no other row.
\<close>

theorem release_lock_effect:
  "((case lock_record (ws_lock w) k of None \<Rightarrow> True
     | Some row \<Rightarrow> \<not> (length row \<ge> 2 \<and> row ! 1 = tok)) \<longrightarrow>
      ws_lock (snd (release_lock dt k tok w)) = ws_lock w)
   \<and> (faults w = [] \<and> lock_row (ws_lock w) k = Some i \<and> lock_record (ws_lock w) k = Some row
        \<and> length row \<ge> 2 \<and> row ! 1 = tok \<longrightarrow>
      release_lock dt k tok w =
        (Inr (), w\<lparr>ws_lock := (ws_lock w)
           [i - 1 := k # [] # [] # (isoformat dt (clock w - 1000000) @ ''Z'') # drop 4 row]\<rparr>))"
proof -
  have "release_lock dt k tok w =
        (Inr (), w\<lparr>ws_lock := (ws_lock w)
           [i - 1 := k # [] # [] # (isoformat dt (clock w - 1000000) @ ''Z'') # drop 4 row]\<rparr>)"
    if "faults w = [] \<and> lock_row (ws_lock w) k = Some i \<and> lock_record (ws_lock w) k = Some row
        \<and> length row \<ge> 2 \<and> row ! 1 = tok"
    using that by (simp add: release_lock_ok grab_row)
  with release_lock_noop [where w = w and k = k and tok = tok and dt = dt] show ?thesis
    by blast
qed


theorem release_lock_effect_witness:
  "(case lock_record (ws_lock held_store) ''2024-01-01'' of None \<Rightarrow> True
     | Some row \<Rightarrow> \<not> (length row \<ge> 2 \<and> row ! 1 = ''tok-eve''))
   \<and> ws_lock (snd (release_lock decimal_time ''2024-01-01'' ''tok-eve'' held_store)) = ws_lock held_store
   \<and> faults held_store = [] \<and> lock_row (ws_lock held_store) ''2024-01-01'' = Some 2
   \<and> release_lock decimal_time ''2024-01-01'' ''tok-bob'' held_store =
       (Inr (), held_store\<lparr>ws_lock := [LOCK_HEADERS, [''2024-01-01'', [], [], ''-1000000Z'']]\<rparr>)"
proof -
  have r: "lock_row (ws_lock held_store) ''2024-01-01'' = Some 2"
    by simp
  have n: "case lock_record (ws_lock held_store) ''2024-01-01'' of None \<Rightarrow> True
     | Some row \<Rightarrow> \<not> (length row \<ge> 2 \<and> row ! 1 = ''tok-eve'')"
    by simp
  note inst = release_lock_effect [where w = held_store and k = "''2024-01-01''" and dt = decimal_time
      and i = 2 and row = "[''2024-01-01'', ''tok-bob'', ''bob'', ''99000000Z'']"]
  have 1: "ws_lock (snd (release_lock decimal_time ''2024-01-01'' ''tok-eve'' held_store)) = ws_lock held_store"
    using inst [where tok = "''tok-eve''", THEN conjunct1] n by blast
  have 2: "release_lock decimal_time ''2024-01-01'' ''tok-bob'' held_store =
       (Inr (), held_store\<lparr>ws_lock := [LOCK_HEADERS, [''2024-01-01'', [], [], ''-1000000Z'']]\<rparr>)"
    using inst [where tok = "''tok-bob''", THEN conjunct2] r held_store_record
    by (simp add: decimal_time_def str_int_def str_nat.simps digit_char_def)
  from n 1 2 r show ?thesis by simp
qed

theorem lock_fail_no_writes_witness:
  "acquire_lock decimal_time ''2024-01-01'' ''alice'' 30 5 500000 held_store =
     (Inr None, held_store\<lparr>uuid_src := sconst 0, clock := 7500000\<rparr>)
   \<and> save_date decimal_time ''2024-01-01'' [] 0 ''alice'' True 30 held_store =
     (Inr (False, ''LOCK_FAIL''), held_store\<lparr>uuid_src := sconst 0, clock := 7500000\<rparr>)
   \<and> ws_resv (held_store\<lparr>uuid_src := sconst 0, clock := 7500000\<rparr>) = ws_resv held_store
   \<and> ws_vers (held_store\<lparr>uuid_src := sconst 0, clock := 7500000\<rparr>) = ws_vers held_store"
proof -
  have w4: "waited 500000 [0..<4] = 5000000" "waited 500000 [0..<5] = 7500000"
    by (simp_all add: waited_def upt_rec)
  have a: "acquire_lock decimal_time ''2024-01-01'' ''alice'' 30 5 500000 held_store =
     (Inr None, held_store\<lparr>uuid_src := sconst 0, clock := 7500000\<rparr>)"
    using acquire_lock_held [where w = held_store and b = 500000 and k = "''2024-01-01''"
        and row = "[''2024-01-01'', ''tok-bob'', ''bob'', ''99000000Z'']" and dt = decimal_time
        and n = 5 and u = "''alice''" and ttl = 30]
    by (simp add: w4 held_store_held)
  from lock_fail_no_writes [where dt = decimal_time and k = "''2024-01-01''" and u = "''alice''"
      and ttl = 30 and w = held_store and d = "[]" and v = 0 and use_lock = True
      and wl = "held_store\<lparr>uuid_src := sconst 0, clock := 7500000\<rparr>"
      and w' = "held_store\<lparr>uuid_src := sconst 0, clock := 7500000\<rparr>"] a
  show ?thesis by simp
qed





text \<open>
  C4. The first half of the claim fails: \<open>release_lock\<close> compares tokens only and never
  looks at the expiry. Below, a lock is taken at time 0 with a TTL of 30 seconds; at
  second 40 the holder's \<open>release_lock\<close> still matches and clears the record.
\<close>

theorem lock_expiry_counterexample:
  "acquire_lock decimal_time ''2024-01-01'' ''alice'' 30 5 500000 fresh_store =
     (Inr (Some (str_uuid 0)),
      fresh_store\<lparr>ws_lock := [LOCK_HEADERS, [''2024-01-01'', str_uuid 0, ''alice'', ''30000000Z'']]\<rparr>)
   \<and> release_lock decimal_time ''2024-01-01'' (str_uuid 0)
       (fresh_store\<lparr>ws_lock := [LOCK_HEADERS, [''2024-01-01'', str_uuid 0, ''alice'', ''30000000Z'']],
                     clock := 40000000\<rparr>) =
     (Inr (),
      fresh_store\<lparr>ws_lock := [LOCK_HEADERS, [''2024-01-01'', [], [], ''39000000Z'']],
                    clock := 40000000\<rparr>)"
proof (intro conjI)
  show "acquire_lock decimal_time ''2024-01-01'' ''alice'' 30 5 500000 fresh_store =
     (Inr (Some (str_uuid 0)),
      fresh_store\<lparr>ws_lock := [LOCK_HEADERS, [''2024-01-01'', str_uuid 0, ''alice'', ''30000000Z'']]\<rparr>)"
    by (rule fresh_acquire)
  show "release_lock decimal_time ''2024-01-01'' (str_uuid 0)
       (fresh_store\<lparr>ws_lock := [LOCK_HEADERS, [''2024-01-01'', str_uuid 0, ''alice'', ''30000000Z'']],
                     clock := 40000000\<rparr>) =
     (Inr (),
      fresh_store\<lparr>ws_lock := [LOCK_HEADERS, [''2024-01-01'', [], [], ''39000000Z'']],
                    clock := 40000000\<rparr>)"
    by (simp add: release_lock_ok grab_def set_range_def set_cells_def
        decimal_time_def str_int_def str_nat.simps digit_char_def)
qed

text \<open>
  C4, amended. Let a lock on an initialised lock sheet be acquired with a TTL of \<open>ttl\<close>
  seconds, and let the lock sheet be untouched since (the holder never released) in a
  world whose clock is \<open>ttl\<close> seconds or more past the acquisition. Then a competing
  \<open>acquire_lock\<close> takes the lock on its first attempt. \<open>release_lock\<close> with the original
  token does not look at the expiry: it still finds its token and clears the record.
\<close>

theorem lock_expiry:
  "datetime_ok dt \<and> ws_lock w \<noteq> [] \<and> acquire_lock dt k u ttl n b w = (Inr (Some t), w1)
   \<and> ws_lock w2 = ws_lock w1 \<and> faults w2 = [] \<and> clock w1 + ttl * 1000000 \<le> clock w2 \<longrightarrow>
     (0 < n2 \<longrightarrow>
        acquire_lock dt k u2 ttl2 n2 b2 w2 =
          (Inr (Some (str_uuid (shd (uuid_src w2)))),
           w2\<lparr>uuid_src := stl (uuid_src w2),
              ws_lock := grab (ws_lock w2) k
                [str_uuid (shd (uuid_src w2)), u2, isoformat dt (clock w2 + ttl2 * 1000000) @ ''Z'']\<rparr>))
     \<and> (\<exists>w3 rest. release_lock dt k t w2 = (Inr (), w3)
           \<and> lock_record (ws_lock w3) k = Some (k # [] # [] # rest))"
proof (intro impI)
  assume a: "datetime_ok dt \<and> ws_lock w \<noteq> [] \<and> acquire_lock dt k u ttl n b w = (Inr (Some t), w1)
   \<and> ws_lock w2 = ws_lock w1 \<and> faults w2 = [] \<and> clock w1 + ttl * 1000000 \<le> clock w2"
  then obtain rest where
    rec: "lock_record (ws_lock w2) k =
           Some (k # t # u # (isoformat dt (clock w1 + ttl * 1000000) @ ''Z'') # rest)"
    using acquire_lock_Some_record [of w dt k u ttl n b t w1] by auto
  from a have ne: "ws_lock w2 \<noteq> []" using lock_record_ne [OF rec] by simp
  have free: "case lock_record (ws_lock w2) k of None \<Rightarrow> True
         | Some row \<Rightarrow> \<not> held_by_other dt row (clock w2) (str_uuid (shd (uuid_src w2)))"
    using a rec expired_not_held by simp
  have 1: "acquire_lock dt k u2 ttl2 n2 b2 w2 =
          (Inr (Some (str_uuid (shd (uuid_src w2)))),
           w2\<lparr>uuid_src := stl (uuid_src w2),
              ws_lock := grab (ws_lock w2) k
                [str_uuid (shd (uuid_src w2)), u2, isoformat dt (clock w2 + ttl2 * 1000000) @ ''Z'']\<rparr>)"
    if "0 < n2"
    using a ne that free by (intro acquire_lock_free) simp_all
  from a obtain w3 where r: "release_lock dt k t w2 = (Inr (), w3)"
    using release_returns by blast
  from release_clears [OF rec _ _ r] have "\<exists>rest. lock_record (ws_lock w3) k = Some (k # [] # [] # rest)"
    by simp
  with 1 r show "(0 < n2 \<longrightarrow>
        acquire_lock dt k u2 ttl2 n2 b2 w2 =
          (Inr (Some (str_uuid (shd (uuid_src w2)))),
           w2\<lparr>uuid_src := stl (uuid_src w2),
              ws_lock := grab (ws_lock w2) k
                [str_uuid (shd (uuid_src w2)), u2, isoformat dt (clock w2 + ttl2 * 1000000) @ ''Z'']\<rparr>))
     \<and> (\<exists>w3 rest. release_lock dt k t w2 = (Inr (), w3)
           \<and> lock_record (ws_lock w3) k = Some (k # [] # [] # rest))"
    by blast
qed


theorem lock_expiry_witness:
  "datetime_ok decimal_time \<and> ws_lock fresh_store \<noteq> []
   \<and> acquire_lock decimal_time ''2024-01-01'' ''alice'' 30 5 500000 fresh_store =
     (Inr (Some (str_uuid 0)),
      fresh_store\<lparr>ws_lock := [LOCK_HEADERS, [''2024-01-01'', str_uuid 0, ''alice'', ''30000000Z'']]\<rparr>)
   \<and> fst (acquire_lock decimal_time ''2024-01-01'' ''bob'' 30 5 500000
        (fresh_store\<lparr>ws_lock := [LOCK_HEADERS, [''2024-01-01'', str_uuid 0, ''alice'', ''30000000Z'']],
                      clock := 30000000, uuid_src := sconst 1\<rparr>)) = Inr (Some (str_uuid 1))
   \<and> (\<exists>w3 rest. release_lock decimal_time ''2024-01-01'' (str_uuid 0)
        (fresh_store\<lparr>ws_lock := [LOCK_HEADERS, [''2024-01-01'', str_uuid 0, ''alice'', ''30000000Z'']],
                      clock := 30000000, uuid_src := sconst 1\<rparr>) = (Inr (), w3)
        \<and> lock_record (ws_lock w3) ''2024-01-01'' = Some (''2024-01-01'' # [] # [] # rest))"
proof -
  let ?w1 = "fresh_store\<lparr>ws_lock := [LOCK_HEADERS, [''2024-01-01'', str_uuid 0, ''alice'', ''30000000Z'']]\<rparr>"
  let ?w2 = "fresh_store\<lparr>ws_lock := [LOCK_HEADERS, [''2024-01-01'', str_uuid 0, ''alice'', ''30000000Z'']],
                      clock := 30000000, uuid_src := sconst 1\<rparr>"
  have h: "datetime_ok decimal_time \<and> ws_lock fresh_store \<noteq> []
     \<and> acquire_lock decimal_time ''2024-01-01'' ''alice'' 30 5 500000 fresh_store = (Inr (Some (str_uuid 0)), ?w1)
     \<and> ws_lock ?w2 = ws_lock ?w1 \<and> faults ?w2 = [] \<and> clock ?w1 + 30 * 1000000 \<le> clock ?w2"
    using fresh_acquire decimal_time_ok by simp
  note inst = lock_expiry [where dt = decimal_time and w = fresh_store and k = "''2024-01-01''"
      and u = "''alice''" and ttl = 30 and n = 5 and b = 500000 and t = "str_uuid 0"
      and ?w1.0 = ?w1 and ?w2.0 = ?w2 and ?n2.0 = 5 and ?u2.0 = "''bob''" and ?ttl2.0 = 30
      and ?b2.0 = 500000, rule_format, OF h]
  from inst [THEN conjunct1] have "fst (acquire_lock decimal_time ''2024-01-01'' ''bob'' 30 5 500000 ?w2)
      = Inr (Some (str_uuid 1))" by simp
  with inst [THEN conjunct2] h show ?thesis by simp
qed

text \<open>
  C2. On a store whose versions sheet has its header row: a commit that returns success
  raises the stored version of its key by exactly one; a commit that returns a failure
  (\<open>LOCK_FAIL\<close> or \<open>VERSION_CONFLICT\<close>) leaves the versions sheet as it is; and after any
  history of returned calls in which \<open>n\<close> commits to the key succeeded, interleaved with
  failed commits and with commits to other keys, the stored version of the key is the
  initial one plus \<open>n\<close>.
\<close>

theorem version_monotonicity:
  "(save_date dt k d v u ul ttl w = (Inr (True, []), w') \<and> ws_vers w \<noteq> [] \<longrightarrow>
      stored_version (ws_vers w') k = stored_version (ws_vers w) k + 1)
   \<and> (save_date dt k d v u ul ttl w = (Inr (False, reason), w') \<longrightarrow>
      ws_vers w' = ws_vers w \<and> stored_version (ws_vers w') k = stored_version (ws_vers w) k)
   \<and> (commits k w n w'' \<and> ws_vers w \<noteq> [] \<longrightarrow>
      stored_version (ws_vers w'') k = stored_version (ws_vers w) k + int n)"
  using commit_bumps [of dt k d v u ul ttl w w'] failure_keeps [of dt k d v u ul ttl w reason w']
    commits_version [of k w n w'']
  by auto


theorem version_monotonicity_witness:
  "ws_vers fresh_store \<noteq> []
   \<and> save_date decimal_time ''2024-01-01'' day_alice 0 ''alice'' True 30 fresh_store = (Inr (True, []), after_alice)
   \<and> stored_version (ws_vers after_alice) ''2024-01-01'' = stored_version (ws_vers fresh_store) ''2024-01-01'' + 1
   \<and> save_date decimal_time ''2024-01-01'' day_bob 0 ''bob'' True 30 after_alice =
       (Inr (False, ''VERSION_CONFLICT''), after_alice)
   \<and> commits ''2024-01-01'' fresh_store 2 after_both
   \<and> stored_version (ws_vers after_both) ''2024-01-01'' = stored_version (ws_vers fresh_store) ''2024-01-01'' + 2"
proof -
  have h: "ws_vers fresh_store \<noteq> []" by simp
  have c1: "commits ''2024-01-01'' fresh_store (Suc 0) after_alice"
    by (rule commits.success [OF commits.start scenario_first])
  have c2: "commits ''2024-01-01'' fresh_store (Suc 0) after_alice"
    by (rule commits.failure [OF c1 scenario_stale])
  have c3: "commits ''2024-01-01'' fresh_store 2 after_both"
    using commits.success [OF c2 scenario_second] by (simp add: numeral_2_eq_2)
  have s1: "stored_version (ws_vers after_alice) ''2024-01-01'' =
      stored_version (ws_vers fresh_store) ''2024-01-01'' + 1"
    using version_monotonicity [where dt = decimal_time and k = "''2024-01-01''" and d = day_alice
        and v = 0 and u = "''alice''" and ul = True and ttl = 30 and w = fresh_store
        and w' = after_alice, THEN conjunct1] scenario_first h
    by simp
  have s3: "stored_version (ws_vers after_both) ''2024-01-01'' =
      stored_version (ws_vers fresh_store) ''2024-01-01'' + 2"
    using version_monotonicity [where k = "''2024-01-01''" and w = fresh_store and n = 2
        and w'' = after_both, THEN conjunct2, THEN conjunct2] c3 h
    by simp
  from h s1 s3 c3 scenario_first scenario_stale show ?thesis by simp
qed



text \<open>
  C8. The claim fails for a state whose slot has an empty \<open>createdAt\<close>: the commit stamps
  it with the time of the commit, so the state read back differs.
\<close>

theorem round_trip_counterexample:
  "save_date decimal_time ''2024-01-01'' day_unstamped 0 ''alice'' True 30 fresh_store =
     (Inr (True, []), after_unstamped)
   \<and> load_date ''2024-01-01'' after_unstamped = (Inr (day_stamped, 1), after_unstamped)
   \<and> \<not> same_day day_stamped day_unstamped"
  using unstamped_commit unstamped_load stamped_differs by simp

text \<open>
  C8, amended. After a successful commit to an initialised store, \<open>load_date\<close> (met by no
  transport fault) returns the previous version plus one. Under lanes A and B it returns,
  for a lane of \<open>state\<close> with distinct block ids, each non-empty slot in its stored form
  (\<open>user\<close> and \<open>note\<close>, empty when missing, and \<open>createdAt\<close>, the time of the commit when
  empty or missing), \<open>None\<close> under every other configured block, and nothing else. The
  state returned equals \<open>state\<close> when \<open>state\<close> has the shape \<open>normal_day\<close>: lanes A and B
  only, every configured block present, \<open>None\<close> only under configured blocks, and slots
  with exactly \<open>user\<close>, \<open>note\<close> and a non-empty \<open>createdAt\<close>.
\<close>

theorem round_trip:
  "save_date dt k d v u ul ttl w = (Inr (True, []), w') \<and> ws_resv w \<noteq> [] \<and> ws_vers w \<noteq> []
   \<and> faults w' = [] \<longrightarrow>
     (\<exists>d'. load_date k w' = (Inr (d', stored_version (ws_vers w) k + 1), w')
        \<and> (\<forall>c b. (c = ''A'' \<or> c = ''B'') \<and> distinct (map fst (lane_of d c)) \<longrightarrow>
              slot_at d' c b = read_back dt (clock w') (blocks w') d c b)
        \<and> (normal_day (blocks w') d \<longrightarrow> same_day d' d))"
proof (intro impI)
  assume a: "save_date dt k d v u ul ttl w = (Inr (True, []), w') \<and> ws_resv w \<noteq> [] \<and> ws_vers w \<noteq> []
   \<and> faults w' = []"
  then obtain d' where l: "load_date k w' = (Inr (d', stored_version (ws_vers w) k + 1), w')"
    and d': "d' = loaded (blocks w') (new_rows dt k d (clock w'))"
    using load_after_commit [of dt k d v u ul ttl w w'] by auto
  have "slot_at d' c b = read_back dt (clock w') (blocks w') d c b"
    if "(c = ''A'' \<or> c = ''B'') \<and> distinct (map fst (lane_of d c))" for c b
    using that by (simp add: d' slot_at_loaded)
  moreover have "same_day d' d" if "normal_day (blocks w') d"
    using that by (simp add: d' normal_day_round_trip)
  ultimately show "\<exists>d'. load_date k w' = (Inr (d', stored_version (ws_vers w) k + 1), w')
        \<and> (\<forall>c b. (c = ''A'' \<or> c = ''B'') \<and> distinct (map fst (lane_of d c)) \<longrightarrow>
              slot_at d' c b = read_back dt (clock w') (blocks w') d c b)
        \<and> (normal_day (blocks w') d \<longrightarrow> same_day d' d)"
    using l by blast
qed

theorem round_trip_witness:
  "save_date decimal_time ''2024-01-01'' day_alice 0 ''alice'' True 30 fresh_store =
     (Inr (True, []), after_alice)
   \<and> ws_resv fresh_store \<noteq> [] \<and> ws_vers fresh_store \<noteq> [] \<and> faults after_alice = []
   \<and> normal_day (blocks after_alice) day_alice
   \<and> distinct (map fst (lane_of day_alice ''A''))
   \<and> (\<exists>d'. load_date ''2024-01-01'' after_alice =
          (Inr (d', stored_version (ws_vers fresh_store) ''2024-01-01'' + 1), after_alice)
        \<and> slot_at d' ''A'' ''LUNCHA'' =
            read_back decimal_time (clock after_alice) (blocks after_alice) day_alice ''A'' ''LUNCHA''
        \<and> same_day d' day_alice)"
proof -
  have h: "save_date decimal_time ''2024-01-01'' day_alice 0 ''alice'' True 30 fresh_store =
     (Inr (True, []), after_alice)
   \<and> ws_resv fresh_store \<noteq> [] \<and> ws_vers fresh_store \<noteq> [] \<and> faults after_alice = []"
    using scenario_first by simp
  have n: "normal_day (blocks after_alice) day_alice" using normal_day_alice by simp
  have dl: "distinct (map fst (lane_of day_alice ''A''))"
    by (simp add: lane_of_def day_alice_def)
  from round_trip [where dt = decimal_time and k = "''2024-01-01''" and d = day_alice and v = 0
      and u = "''alice''" and ul = True and ttl = 30 and w = fresh_store and w' = after_alice,
      rule_format, OF h]
  obtain d' where "load_date ''2024-01-01'' after_alice =
          (Inr (d', stored_version (ws_vers fresh_store) ''2024-01-01'' + 1), after_alice)"
    and "\<forall>c b. (c = ''A'' \<or> c = ''B'') \<and> distinct (map fst (lane_of day_alice c)) \<longrightarrow>
              slot_at d' c b = read_back decimal_time (clock after_alice) (blocks after_alice) day_alice c b"
    and "normal_day (blocks after_alice) day_alice \<longrightarrow> same_day d' day_alice"
    by blast
  with n dl have "load_date ''2024-01-01'' after_alice =
          (Inr (d', stored_version (ws_vers fresh_store) ''2024-01-01'' + 1), after_alice)
        \<and> slot_at d' ''A'' ''LUNCHA'' =
            read_back decimal_time (clock after_alice) (blocks after_alice) day_alice ''A'' ''LUNCHA''
        \<and> same_day d' day_alice"
    by blast
  then have "\<exists>d'. load_date ''2024-01-01'' after_alice =
          (Inr (d', stored_version (ws_vers fresh_store) ''2024-01-01'' + 1), after_alice)
        \<and> slot_at d' ''A'' ''LUNCHA'' =
            read_back decimal_time (clock after_alice) (blocks after_alice) day_alice ''A'' ''LUNCHA''
        \<and> same_day d' day_alice" ..
  with h n dl show ?thesis by blast
qed




end
